theory Spec2Isabelle
  imports Main
begin

section \<open>Data model of mines.c\<close>

text \<open>
  The program is a curses Minesweeper. Its board is a heap array \<open>cells\<close> of
  \<open>height * width\<close> structs, addressed as \<open>cells[y*width+x]\<close>, and a handful of
  file-scope variables. The enum keeps the order of the source, so that the all-zero
  cell written by \<open>memset\<close> is \<open>COVERED\<close>, not a mine, with zero neighbours.
\<close>

datatype cell_state = COVERED | UNCOVERED | FLAGGED | EXPLODED

record cell =
  is_mine :: bool
  state :: cell_state
  neighbors :: int

text \<open>The file-scope variables of the program, with the array \<open>cells\<close> as a list.\<close>

record game =
  height :: int
  width :: int
  num_mines :: int
  cursor_x :: int
  cursor_y :: int
  game_active :: bool
  new_game :: bool
  custom_num_mines :: bool
  cells :: "cell list"

text \<open>
  C integers are modelled as \<open>int\<close>: no claim depends on overflow, which is undefined
  behaviour for \<open>int\<close> in C. An index outside the array is undefined behaviour as well;
  every theorem about an operation that takes coordinates assumes them inside the grid,
  which is what \<open>main\<close> guarantees for the cursor.
\<close>

definition cell_index :: "game \<Rightarrow> int \<Rightarrow> int \<Rightarrow> nat" where
  "cell_index g x y = nat (y * width g + x)"

definition cell_at :: "game \<Rightarrow> int \<Rightarrow> int \<Rightarrow> cell" where
  "cell_at g x y = cells g ! cell_index g x y"

definition set_state :: "game \<Rightarrow> int \<Rightarrow> int \<Rightarrow> cell_state \<Rightarrow> game" where
  "set_state g x y s =
     g\<lparr>cells := (cells g)[cell_index g x y := (cell_at g x y)\<lparr>state := s\<rparr>]\<rparr>"

text \<open>The bounds test \<open>i >= 0 && i < width && j >= 0 && j < height\<close> of every window loop.\<close>

definition in_grid :: "game \<Rightarrow> int \<Rightarrow> int \<Rightarrow> bool" where
  "in_grid g i j \<longleftrightarrow> i \<ge> 0 \<and> i < width g \<and> j \<ge> 0 \<and> j < height g"

text \<open>\<open>malloc(height*width*sizeof(struct cell))\<close>: the array has \<open>height * width\<close> cells.\<close>

definition allocated :: "game \<Rightarrow> bool" where
  "allocated g \<longleftrightarrow> length (cells g) = nat (height g * width g)"

subsection \<open>\<open>flag\<close>\<close>

definition flag :: "game \<Rightarrow> int \<Rightarrow> int \<Rightarrow> game" where
  "flag g x y =
     (if state (cell_at g x y) = COVERED then set_state g x y FLAGGED
      else if state (cell_at g x y) = FLAGGED then set_state g x y COVERED
      else g)"


subsection \<open>C arithmetic\<close>

text \<open>\<open>/\<close> and \<open>%\<close> of C truncate towards zero; \<open>div\<close> and \<open>mod\<close> of HOL round down.\<close>

definition c_div :: "int \<Rightarrow> int \<Rightarrow> int" where
  "c_div a b = sgn a * sgn b * (\<bar>a\<bar> div \<bar>b\<bar>)"

definition c_rem :: "int \<Rightarrow> int \<Rightarrow> int" where
  "c_rem a b = a - b * c_div a b"

subsection \<open>The 3x3 window loops\<close>

text \<open>
  \<open>for (j = y-1; j <= y+1; ++j) for (i = x-1; i <= x+1; ++i)\<close>: the coordinates the
  two loops visit, in the order they visit them. The loop bodies test the bounds and
  skip the centre themselves.
\<close>

definition window :: "int \<Rightarrow> int \<Rightarrow> (int \<times> int) list" where
  "window x y = concat (map (\<lambda>j. map (\<lambda>i. (i, j)) [x - 1..x + 1]) [y - 1..y + 1])"

text \<open>A loop whose body may fail to return: it stops at the first body that does not.\<close>

fun for_each :: "('s \<Rightarrow> 'a \<Rightarrow> 's option) \<Rightarrow> 's \<Rightarrow> 'a list \<Rightarrow> 's option" where
  "for_each f s [] = Some s"
| "for_each f s (p # ps) = (case f s p of None \<Rightarrow> None | Some s' \<Rightarrow> for_each f s' ps)"

subsection \<open>\<open>uncover\<close>\<close>

text \<open>
  The first loop of the \<open>UNCOVERED\<close> branch: \<open>flags_remaining\<close> starts at the cell's
  \<open>neighbors\<close> and loses one for every flagged cell around it.
\<close>

definition flags_remaining :: "game \<Rightarrow> int \<Rightarrow> int \<Rightarrow> int" where
  "flags_remaining g x y =
     fold (\<lambda>(i, j) n.
             if in_grid g i j \<and> \<not> (i = x \<and> j = y) \<and> state (cell_at g i j) = FLAGGED
             then n - 1 else n)
          (window x y) (neighbors (cell_at g x y))"

text \<open>
  \<open>uncover\<close> calls itself inside its loops, each call working on the board the calls
  before it left behind. The model threads the board through the loop and bounds the
  depth of the recursion by a first argument: \<open>None\<close> means the depth ran out. That a
  depth of twice the number of cells (plus two) is always enough is proved below, and
  \<open>uncover\<close> is the function at that depth.
\<close>

fun uncover_fuel :: "nat \<Rightarrow> game \<Rightarrow> int \<Rightarrow> int \<Rightarrow> game option" where
  "uncover_fuel 0 g x y = None"
| "uncover_fuel (Suc n) g x y =
     (if state (cell_at g x y) = COVERED then
        (if is_mine (cell_at g x y) then Some (set_state g x y EXPLODED)
         else
           (let g1 = set_state g x y UNCOVERED in
            if neighbors (cell_at g1 x y) = 0 then
              for_each
                (\<lambda>g' (i, j).
                   if in_grid g' i j \<and> \<not> (i = x \<and> j = y) then uncover_fuel n g' i j
                   else Some g')
                g1 (window x y)
            else Some g1))
      else if state (cell_at g x y) = UNCOVERED then
        (if flags_remaining g x y = 0 then
           for_each
             (\<lambda>g' (i, j).
                if in_grid g' i j \<and> \<not> (i = x \<and> j = y) \<and> state (cell_at g' i j) = COVERED
                then uncover_fuel n g' i j
                else Some g')
             g (window x y)
         else Some g)
      else Some g)"

definition uncover :: "game \<Rightarrow> int \<Rightarrow> int \<Rightarrow> game option" where
  "uncover g x y = uncover_fuel (2 * length (cells g) + 2) g x y"

subsection \<open>\<open>generate_mines\<close>\<close>

text \<open>
  The loop draws two numbers from \<open>rand()\<close> per round and may go round for ever. The
  model is given the numbers \<open>rand()\<close> returns (they are not negative) as a list; the
  result is \<open>None\<close> when the list is used up before \<open>num_mines\<close> mines are placed.
\<close>

definition set_mine :: "game \<Rightarrow> int \<Rightarrow> int \<Rightarrow> game" where
  "set_mine g x y =
     g\<lparr>cells := (cells g)[cell_index g x y := (cell_at g x y)\<lparr>is_mine := True\<rparr>]\<rparr>"

fun generate_mines_loop :: "nat list \<Rightarrow> game \<Rightarrow> int \<Rightarrow> int \<Rightarrow> int \<Rightarrow> game option" where
  "generate_mines_loop rs g start_x start_y i =
     (if i < num_mines g then
        (case rs of
           r1 # r2 # rs' \<Rightarrow>
             (let x = c_rem (int r1) (width g); y = c_rem (int r2) (height g) in
              if \<not> (x = start_x \<and> y = start_y) then
                (if \<not> is_mine (cell_at g x y)
                 then generate_mines_loop rs' (set_mine g x y) start_x start_y (i + 1)
                 else generate_mines_loop rs' g start_x start_y i)
              else generate_mines_loop rs' g start_x start_y i)
         | _ \<Rightarrow> None)
      else Some g)"

definition generate_mines :: "nat list \<Rightarrow> game \<Rightarrow> int \<Rightarrow> int \<Rightarrow> game option" where
  "generate_mines rs g start_x start_y = generate_mines_loop rs g start_x start_y 0"

subsection \<open>\<open>calculate_neighbors\<close>\<close>

text \<open>The two inner loops: \<open>num_neighbors\<close> for the cell \<open>(x, y)\<close>.\<close>

definition num_neighbors :: "game \<Rightarrow> int \<Rightarrow> int \<Rightarrow> int" where
  "num_neighbors g x y =
     fold (\<lambda>(i, j) n.
             if in_grid g i j \<and> \<not> (i = x \<and> j = y) \<and> is_mine (cell_at g i j)
             then n + 1 else n)
          (window x y) 0"

definition set_neighbors :: "game \<Rightarrow> int \<Rightarrow> int \<Rightarrow> int \<Rightarrow> game" where
  "set_neighbors g x y n =
     g\<lparr>cells := (cells g)[cell_index g x y := (cell_at g x y)\<lparr>neighbors := n\<rparr>]\<rparr>"

definition calculate_neighbors :: "game \<Rightarrow> game" where
  "calculate_neighbors g =
     fold (\<lambda>y g1. fold (\<lambda>x g2. set_neighbors g2 x y (num_neighbors g2 x y))
                        [0..width g1 - 1] g1)
          [0..height g - 1] g"

subsection \<open>\<open>draw\<close>\<close>

text \<open>
  Of what \<open>draw\<close> puts on the screen the model keeps the two rows under the board: row
  \<open>height\<close>, where \<open>You Win!\<close> is written, and row \<open>height + 1\<close>, the status line, which
  is cleared and written again for every cell. The screen of curses keeps what was
  written until something else is written over it, so it is a state that \<open>draw\<close>
  takes and returns. Glyphs and colours of the cells are left out. The terminal is
  taken to have at least \<open>height + 2\<close> lines, so that the writes to these two rows
  succeed: on a shorter terminal \<open>move\<close> and \<open>mvaddstr\<close> fail there and neither text
  appears, which this model does not describe.
\<close>

datatype status_text = Game_Over | You_Win | Unflagged_Mines int

record screen =
  win_row :: "status_text option"
  status_row :: "status_text option"

record draw_vars =
  gameover :: bool
  unflagged_mines :: int
  uncovers_remaining :: int
  scr :: screen

text \<open>The body of the inner loop for the cell \<open>(x, y)\<close>.\<close>

definition draw_cell :: "game \<Rightarrow> draw_vars \<Rightarrow> int \<Rightarrow> int \<Rightarrow> draw_vars" where
  "draw_cell g v x y =
     (let v1 = (case state (cell_at g x y) of
                  COVERED \<Rightarrow> v
                | UNCOVERED \<Rightarrow> v\<lparr>uncovers_remaining := uncovers_remaining v - 1\<rparr>
                | FLAGGED \<Rightarrow> v\<lparr>unflagged_mines := unflagged_mines v - 1\<rparr>
                | EXPLODED \<Rightarrow> v\<lparr>gameover := True\<rparr>);
          s1 = (scr v1)\<lparr>status_row := None\<rparr>
      in if gameover v1 then v1\<lparr>scr := s1\<lparr>status_row := Some Game_Over\<rparr>\<rparr>
         else if uncovers_remaining v1 = 0 then v1\<lparr>scr := s1\<lparr>win_row := Some You_Win\<rparr>\<rparr>
         else v1\<lparr>scr := s1\<lparr>status_row := Some (Unflagged_Mines (unflagged_mines v1))\<rparr>\<rparr>)"

definition draw_loop :: "game \<Rightarrow> draw_vars \<Rightarrow> draw_vars" where
  "draw_loop g v0 =
     fold (\<lambda>y v. fold (\<lambda>x v'. draw_cell g v' x y) [0..width g - 1] v) [0..height g - 1] v0"

definition draw :: "game \<Rightarrow> screen \<Rightarrow> screen" where
  "draw g s =
     scr (draw_loop g
            \<lparr>gameover = False, unflagged_mines = num_mines g,
             uncovers_remaining = height g * width g - num_mines g, scr = s\<rparr>)"

subsection \<open>\<open>parse_opt\<close> and \<open>main\<close>\<close>

text \<open>
  \<open>sscanf(arg, "%i", &v)\<close> is modelled by its outcome: \<open>Some n\<close> when it converted
  the number \<open>n\<close> and stored it, \<open>None\<close> when it converted nothing.
\<close>

datatype error_t = Parsed | ARGP_ERR_UNKNOWN

definition parse_opt :: "char \<Rightarrow> int option \<Rightarrow> game \<Rightarrow> error_t \<times> game" where
  "parse_opt key arg g =
     (if key = CHR ''h'' then
        (Parsed, case arg of Some n \<Rightarrow> g\<lparr>height := n\<rparr> | None \<Rightarrow> g\<lparr>game_active := False\<rparr>)
      else if key = CHR ''w'' then
        (Parsed, case arg of Some n \<Rightarrow> g\<lparr>width := n\<rparr> | None \<Rightarrow> g\<lparr>game_active := False\<rparr>)
      else if key = CHR ''m'' then
        (Parsed, case arg of Some n \<Rightarrow> g\<lparr>num_mines := n\<rparr> | None \<Rightarrow> g\<lparr>game_active := False\<rparr>)
      else (ARGP_ERR_UNKNOWN, g))"

text \<open>The initialisers of the file-scope variables; \<open>cells\<close> is not allocated yet.\<close>

definition initial_game :: game where
  "initial_game =
     \<lparr>height = 20, width = 20, num_mines = 60, cursor_x = 0, cursor_y = 0,
      game_active = True, new_game = False, custom_num_mines = False, cells = []\<rparr>"

definition MINE_GEN_RATIO :: int where
  "MINE_GEN_RATIO = 6"

text \<open>The cell \<open>memset(cells, 0, ...)\<close> writes.\<close>

definition zero_cell :: cell where
  "zero_cell = \<lparr>is_mine = False, state = COVERED, neighbors = 0\<rparr>"

definition clear_cells :: "game \<Rightarrow> game" where
  "clear_cells g = g\<lparr>cells := replicate (nat (height g * width g)) zero_cell\<rparr>"

text \<open>
  \<open>main\<close> up to the game loop: \<open>argp_parse\<close> hands each option of the command line to
  \<open>parse_opt\<close>, then the board is allocated and zeroed and the number of mines is set.
\<close>

definition main_setup :: "(char \<times> int option) list \<Rightarrow> game" where
  "main_setup opts =
     (let g1 = fold (\<lambda>(key, arg) g. snd (parse_opt key arg g)) opts initial_game;
          g2 = clear_cells g1
      in if \<not> custom_num_mines g2
         then g2\<lparr>num_mines := c_div (width g2 * height g2) MINE_GEN_RATIO\<rparr>
         else g2)"

text \<open>What \<open>getch\<close> returns: an arrow key or a character.\<close>

datatype key = KEY_RIGHT | KEY_LEFT | KEY_UP | KEY_DOWN | Ch char

record session =
  game_of :: game
  generated :: bool
  screen_of :: screen

text \<open>
  One round of the game loop, for the key \<open>getch\<close> returns and the numbers \<open>rand()\<close>
  returns during the round. \<open>None\<close>: \<open>generate_mines\<close> did not finish on these numbers.
\<close>

definition handle_key :: "nat list \<Rightarrow> key \<Rightarrow> game \<Rightarrow> bool \<Rightarrow> (game \<times> bool) option" where
  "handle_key rs k g gen =
     (if k = KEY_RIGHT \<or> k = Ch CHR ''l'' then
        Some (if cursor_x g < width g - 1 then g\<lparr>cursor_x := cursor_x g + 1\<rparr> else g, gen)
      else if k = KEY_LEFT \<or> k = Ch CHR ''h'' then
        Some (if cursor_x g > 0 then g\<lparr>cursor_x := cursor_x g - 1\<rparr> else g, gen)
      else if k = KEY_UP \<or> k = Ch CHR ''k'' then
        Some (if cursor_y g > 0 then g\<lparr>cursor_y := cursor_y g - 1\<rparr> else g, gen)
      else if k = KEY_DOWN \<or> k = Ch CHR ''j'' then
        Some (if cursor_y g < height g - 1 then g\<lparr>cursor_y := cursor_y g + 1\<rparr> else g, gen)
      else if k = Ch CHR '' '' \<or> k = Ch CHR ''z'' then
        (case (if \<not> gen
               then map_option calculate_neighbors
                      (generate_mines rs g (cursor_x g) (cursor_y g))
               else Some g) of
           None \<Rightarrow> None
         | Some g1 \<Rightarrow>
             (case uncover g1 (cursor_x g1) (cursor_y g1) of
                None \<Rightarrow> None
              | Some g2 \<Rightarrow> Some (g2, True)))
      else if k = Ch CHR ''x'' \<or> k = Ch CHR ''f'' then
        Some (flag g (cursor_x g) (cursor_y g), gen)
      else if k = Ch CHR ''n'' then Some (g\<lparr>new_game := True\<rparr>, gen)
      else if k = Ch CHR ''q'' then Some (g\<lparr>game_active := False\<rparr>, gen)
      else Some (g, gen))"

definition game_round :: "nat list \<Rightarrow> key \<Rightarrow> session \<Rightarrow> session option" where
  "game_round rs k s =
     (let (g0, gen0) =
            (if new_game (game_of s)
             then ((clear_cells (game_of s))\<lparr>new_game := False\<rparr>, False)
             else (game_of s, generated s))
      in case handle_key rs k g0 gen0 of
           None \<Rightarrow> None
         | Some (g1, gen1) \<Rightarrow>
             Some \<lparr>game_of = g1, generated = gen1, screen_of = draw g1 (screen_of s)\<rparr>)"

text \<open>The game loop on a list of rounds, while \<open>game_active\<close>.\<close>

fun game_loop :: "(key \<times> nat list) list \<Rightarrow> session \<Rightarrow> session option" where
  "game_loop [] s = Some s"
| "game_loop ((k, rs) # evs) s =
     (if game_active (game_of s) then
        (case game_round rs k s of None \<Rightarrow> None | Some s' \<Rightarrow> game_loop evs s')
      else Some s)"

definition start_session :: "(char \<times> int option) list \<Rightarrow> session" where
  "start_session opts =
     \<lparr>game_of = main_setup opts, generated = False,
      screen_of = \<lparr>win_row = None, status_row = None\<rparr>\<rparr>"

section \<open>Notions of the specification\<close>

text \<open>
  What the specification speaks of: the neighbours of a cell, the counts of flags and
  mines around it, zero regions and their boundaries, the boards a game can reach.
\<close>

text \<open>The cells next to \<open>(x, y)\<close>: at most one step away in each direction, not the cell itself.\<close>

definition neighbor_of :: "int \<Rightarrow> int \<Rightarrow> int \<Rightarrow> int \<Rightarrow> bool" where
  "neighbor_of x y i j \<longleftrightarrow> \<bar>i - x\<bar> \<le> 1 \<and> \<bar>j - y\<bar> \<le> 1 \<and> \<not> (i = x \<and> j = y)"

text \<open>The number of flagged cells of the grid next to \<open>(x, y)\<close>, as the spec words it.\<close>

definition flagged_neighbors :: "game \<Rightarrow> int \<Rightarrow> int \<Rightarrow> nat" where
  "flagged_neighbors g x y =
     card {(i, j). in_grid g i j \<and> neighbor_of x y i j \<and> state (cell_at g i j) = FLAGGED}"

text \<open>The number of mines in the cells of the grid next to \<open>(x, y)\<close>, as the spec words it.\<close>

definition mines_around :: "game \<Rightarrow> int \<Rightarrow> int \<Rightarrow> nat" where
  "mines_around g x y =
     card {(i, j). in_grid g i j \<and> neighbor_of x y i j \<and> is_mine (cell_at g i j)}"

text \<open>The cells of the board in the order the loops over \<open>y\<close> and \<open>x\<close> visit them.\<close>

definition grid_coords :: "game \<Rightarrow> (int \<times> int) list" where
  "grid_coords g = concat (map (\<lambda>y. map (\<lambda>x. (x, y)) [0..width g - 1]) [0..height g - 1])"

text \<open>The state \<open>calculate_neighbors\<close> leaves: every cell of the grid holds its count.\<close>

definition neighbors_computed :: "game \<Rightarrow> bool" where
  "neighbors_computed g \<longleftrightarrow>
     (\<forall>(x, y)\<in>set (grid_coords g). neighbors (cell_at g x y) = num_neighbors g x y)"

text \<open>A cell of the grid that is not a mine and has no mine next to it by its count.\<close>

definition is_zero :: "game \<Rightarrow> int \<Rightarrow> int \<Rightarrow> bool" where
  "is_zero g i j \<longleftrightarrow> in_grid g i j \<and> \<not> is_mine (cell_at g i j) \<and> neighbors (cell_at g i j) = 0"

text \<open>
  The zero region of \<open>(x, y)\<close>: the zero cells that a path of neighbouring zero cells
  joins to \<open>(x, y)\<close>. The covered zero region takes only the paths through cells that
  are \<open>COVERED\<close>.
\<close>

inductive_set zero_region :: "game \<Rightarrow> int \<Rightarrow> int \<Rightarrow> (int \<times> int) set" for g x y where
  start: "(x, y) \<in> zero_region g x y"
| step: "(i, j) \<in> zero_region g x y \<Longrightarrow> neighbor_of i j i' j' \<Longrightarrow> is_zero g i' j' \<Longrightarrow>
         (i', j') \<in> zero_region g x y"

inductive_set covered_zero_region :: "game \<Rightarrow> int \<Rightarrow> int \<Rightarrow> (int \<times> int) set" for g x y where
  start: "(x, y) \<in> covered_zero_region g x y"
| step: "(i, j) \<in> covered_zero_region g x y \<Longrightarrow> neighbor_of i j i' j' \<Longrightarrow> is_zero g i' j' \<Longrightarrow>
         state (cell_at g i' j') = COVERED \<Longrightarrow> (i', j') \<in> covered_zero_region g x y"

text \<open>A set of cells with its boundary: the cells of the grid in it or next to one of it.\<close>

definition with_boundary :: "game \<Rightarrow> (int \<times> int) set \<Rightarrow> (int \<times> int) set" where
  "with_boundary g R =
     {(i', j'). in_grid g i' j' \<and> (\<exists>(i, j)\<in>R. (i', j') = (i, j) \<or> neighbor_of i j i' j')}"

text \<open>No cell of the board is flagged.\<close>

definition no_flags :: "game \<Rightarrow> bool" where
  "no_flags g \<longleftrightarrow> list_all (\<lambda>c. state c \<noteq> FLAGGED) (cells g)"

text \<open>
  The boards of a game: a board whose cells are all \<open>COVERED\<close> (the zeroed board,
  with any mines and neighbour counts put on it), and what \<open>uncover\<close> and \<open>flag\<close> at
  cells of the grid make of it. \<open>flag\<close> does not read \<open>is_mine\<close> and \<open>generate_mines\<close>
  does not read \<open>state\<close>, so flags set before the mines are placed are covered too.
\<close>

inductive reachable :: "game \<Rightarrow> bool" where
  fresh: "allocated g \<Longrightarrow> list_all (\<lambda>c. state c = COVERED) (cells g) \<Longrightarrow> reachable g"
| reveal: "reachable g \<Longrightarrow> in_grid g x y \<Longrightarrow> uncover g x y = Some g' \<Longrightarrow> reachable g'"
| toggle: "reachable g \<Longrightarrow> in_grid g x y \<Longrightarrow> reachable (flag g x y)"

text \<open>The moves of a mine's state the claim allows in one operation.\<close>

definition mine_move :: "cell_state \<Rightarrow> cell_state \<Rightarrow> bool" where
  "mine_move s s' \<longleftrightarrow>
     s' = s \<or> s = COVERED \<and> s' = FLAGGED \<or> s = FLAGGED \<and> s' = COVERED
     \<or> s = COVERED \<and> s' = EXPLODED"

text \<open>No cell of the board is a mine and \<open>UNCOVERED\<close>.\<close>

definition no_mine_uncovered :: "game \<Rightarrow> bool" where
  "no_mine_uncovered g \<longleftrightarrow> list_all (\<lambda>c. \<not> (is_mine c \<and> state c = UNCOVERED)) (cells g)"

text \<open>The number of mines on the board, and the number of covered cells.\<close>

definition mine_count :: "game \<Rightarrow> nat" where
  "mine_count g = length (filter is_mine (cells g))"

definition covered_count :: "game \<Rightarrow> nat" where
  "covered_count g = card {k. k < length (cells g) \<and> state (cells g ! k) = COVERED}"

section \<open>What the operations may change\<close>

text \<open>
  The only writes of \<open>uncover\<close> are \<open>c->state = EXPLODED\<close> on a covered mine and
  \<open>c->state = UNCOVERED\<close> on a covered cell that is not a mine. \<open>unveils g g'\<close> says
  that \<open>g'\<close> comes from \<open>g\<close> by such writes alone.
\<close>

definition cell_unveils :: "cell \<Rightarrow> cell \<Rightarrow> bool" where
  "cell_unveils c c' \<longleftrightarrow>
     c' = c \<or> state c = COVERED \<and> c' = c\<lparr>state := (if is_mine c then EXPLODED else UNCOVERED)\<rparr>"

definition unveils :: "game \<Rightarrow> game \<Rightarrow> bool" where
  "unveils g g' \<longleftrightarrow>
     g'\<lparr>cells := []\<rparr> = g\<lparr>cells := []\<rparr> \<and> length (cells g') = length (cells g) \<and>
     (\<forall>k<length (cells g). cell_unveils (cells g ! k) (cells g' ! k))"

text \<open>The bodies of the two loops of \<open>uncover\<close> that call \<open>uncover\<close>.\<close>

abbreviation cascade_body :: "nat \<Rightarrow> int \<Rightarrow> int \<Rightarrow> game \<Rightarrow> int \<times> int \<Rightarrow> game option" where
  "cascade_body n x y \<equiv>
     (\<lambda>g' (i, j).
        if in_grid g' i j \<and> \<not> (i = x \<and> j = y) then uncover_fuel n g' i j else Some g')"

abbreviation chord_body :: "nat \<Rightarrow> int \<Rightarrow> int \<Rightarrow> game \<Rightarrow> int \<times> int \<Rightarrow> game option" where
  "chord_body n x y \<equiv>
     (\<lambda>g' (i, j).
        if in_grid g' i j \<and> \<not> (i = x \<and> j = y) \<and> state (cell_at g' i j) = COVERED
        then uncover_fuel n g' i j
        else Some g')"

declare uncover_fuel.simps [simp del]

text \<open>
  What a log of writes from \<open>g\<close> to \<open>g'\<close> has to be: no cell twice, every cell of it
  \<open>COVERED\<close> before and not after, and every cell of the grid that changed in it.
\<close>

definition logs :: "game \<Rightarrow> game \<times> (int \<times> int) list \<Rightarrow> bool" where
  "logs g r \<longleftrightarrow>
     unveils g (fst r) \<and> distinct (snd r) \<and>
     (\<forall>(i, j)\<in>set (snd r).
         in_grid g i j \<and> state (cell_at g i j) = COVERED \<and> state (cell_at (fst r) i j) \<noteq> COVERED) \<and>
     (\<forall>i j. in_grid g i j \<and> cell_at (fst r) i j \<noteq> cell_at g i j \<longrightarrow> (i, j) \<in> set (snd r))"

text \<open>
  \<open>calculate_neighbors\<close> writes only the field \<open>neighbors\<close>: \<open>recounts g g'\<close> says that
  \<open>g'\<close> is \<open>g\<close> but for that field.
\<close>

definition recounts :: "game \<Rightarrow> game \<Rightarrow> bool" where
  "recounts g g' \<longleftrightarrow>
     g'\<lparr>cells := []\<rparr> = g\<lparr>cells := []\<rparr> \<and> length (cells g') = length (cells g) \<and>
     (\<forall>k<length (cells g). is_mine (cells g' ! k) = is_mine (cells g ! k)
                           \<and> state (cells g' ! k) = state (cells g ! k))"

text \<open>The body of the loops of \<open>calculate_neighbors\<close>.\<close>

definition count_cell :: "int \<times> int \<Rightarrow> game \<Rightarrow> game" where
  "count_cell = (\<lambda>(x, y) g. set_neighbors g x y (num_neighbors g x y))"

text \<open>\<open>generate_mines\<close> writes only the field \<open>is_mine\<close>, and only to set it.\<close>

definition places :: "game \<Rightarrow> game \<Rightarrow> bool" where
  "places g g' \<longleftrightarrow>
     g'\<lparr>cells := []\<rparr> = g\<lparr>cells := []\<rparr> \<and> length (cells g') = length (cells g) \<and>
     (\<forall>k<length (cells g). state (cells g' ! k) = state (cells g ! k)
                           \<and> neighbors (cells g' ! k) = neighbors (cells g ! k)
                           \<and> (is_mine (cells g ! k) \<longrightarrow> is_mine (cells g' ! k)))"

text \<open>
  The invariant of the loop, on a board \<open>g0\<close> that had no mines: \<open>i\<close> cells were
  chosen so far, all different, none the start cell, and they are the mines.
\<close>

definition placing ::
  "game \<Rightarrow> int \<Rightarrow> int \<Rightarrow> game \<Rightarrow> int \<Rightarrow> (int \<times> int) list \<Rightarrow> bool" where
  "placing g0 sx sy a i ps \<longleftrightarrow>
     places g0 a \<and> 0 \<le> i \<and> i \<le> num_mines g0 \<and> length ps = nat i \<and> distinct ps \<and>
     mine_count a = nat i \<and>
     (\<forall>p\<in>set ps. in_grid g0 (fst p) (snd p) \<and> p \<noteq> (sx, sy)) \<and>
     (\<forall>x y. in_grid g0 x y \<longrightarrow> (is_mine (cell_at a x y) \<longleftrightarrow> (x, y) \<in> set ps))"

text \<open>
  Every zero cell that a reveal took out of \<open>COVERED\<close> has no covered neighbour left.
\<close>

definition settled :: "game \<Rightarrow> game \<Rightarrow> bool" where
  "settled g g' \<longleftrightarrow>
     (\<forall>i j i' j'. is_zero g i j \<and> state (cell_at g i j) = COVERED
          \<and> state (cell_at g' i j) \<noteq> COVERED \<and> in_grid g i' j' \<and> neighbor_of i j i' j'
        \<longrightarrow> state (cell_at g' i' j') \<noteq> COVERED)"

text \<open>
  What holds of a session between two rounds of the game loop: the board is
  allocated and the cursor is on it; before the mines are placed every cell is
  \<open>COVERED\<close> or \<open>FLAGGED\<close> and none is a mine; after that the counts are computed
  and no mine is \<open>UNCOVERED\<close>.
\<close>

definition session_ok :: "session \<Rightarrow> bool" where
  "session_ok s \<longleftrightarrow>
     allocated (game_of s) \<and>
     in_grid (game_of s) (cursor_x (game_of s)) (cursor_y (game_of s)) \<and>
     (generated s \<longrightarrow> neighbors_computed (game_of s) \<and> no_mine_uncovered (game_of s)) \<and>
     (\<not> generated s \<longrightarrow>
        list_all (\<lambda>c. \<not> is_mine c \<and> (state c = COVERED \<or> state c = FLAGGED))
          (cells (game_of s)))"

section \<open>The operations with a log\<close>

text \<open>
  \<open>uncover\<close> with a log: the same function, returning next to the board the cells it
  wrote to, in the order of the writes. The loop bodies append the log of each call.
\<close>

definition logged ::
  "(game \<Rightarrow> 'a \<Rightarrow> (game \<times> (int \<times> int) list) option) \<Rightarrow>
   game \<times> (int \<times> int) list \<Rightarrow> 'a \<Rightarrow> (game \<times> (int \<times> int) list) option" where
  "logged f = (\<lambda>(g, ws) p. map_option (\<lambda>(g', ws'). (g', ws @ ws')) (f g p))"

fun uncover_log :: "nat \<Rightarrow> game \<Rightarrow> int \<Rightarrow> int \<Rightarrow> (game \<times> (int \<times> int) list) option" where
  "uncover_log 0 g x y = None"
| "uncover_log (Suc n) g x y =
     (if state (cell_at g x y) = COVERED then
        (if is_mine (cell_at g x y) then Some (set_state g x y EXPLODED, [(x, y)])
         else
           (let g1 = set_state g x y UNCOVERED in
            if neighbors (cell_at g1 x y) = 0 then
              for_each
                (logged (\<lambda>g' (i, j).
                   if in_grid g' i j \<and> \<not> (i = x \<and> j = y) then uncover_log n g' i j
                   else Some (g', [])))
                (g1, [(x, y)]) (window x y)
            else Some (g1, [(x, y)])))
      else if state (cell_at g x y) = UNCOVERED then
        (if flags_remaining g x y = 0 then
           for_each
             (logged (\<lambda>g' (i, j).
                if in_grid g' i j \<and> \<not> (i = x \<and> j = y) \<and> state (cell_at g' i j) = COVERED
                then uncover_log n g' i j
                else Some (g', [])))
             (g, []) (window x y)
         else Some (g, []))
      else Some (g, []))"

abbreviation cascade_log_body ::
  "nat \<Rightarrow> int \<Rightarrow> int \<Rightarrow> game \<Rightarrow> int \<times> int \<Rightarrow> (game \<times> (int \<times> int) list) option" where
  "cascade_log_body n x y \<equiv>
     (\<lambda>g' (i, j).
        if in_grid g' i j \<and> \<not> (i = x \<and> j = y) then uncover_log n g' i j
        else Some (g', []))"

abbreviation chord_log_body ::
  "nat \<Rightarrow> int \<Rightarrow> int \<Rightarrow> game \<Rightarrow> int \<times> int \<Rightarrow> (game \<times> (int \<times> int) list) option" where
  "chord_log_body n x y \<equiv>
     (\<lambda>g' (i, j).
        if in_grid g' i j \<and> \<not> (i = x \<and> j = y) \<and> state (cell_at g' i j) = COVERED
        then uncover_log n g' i j
        else Some (g', []))"

declare uncover_log.simps [simp del]

text \<open>
  \<open>generate_mines\<close> with a log: the same loop, returning next to the board the cells
  it chose, that is the cells where it ran \<open>c->is_mine = true\<close>, in order.
\<close>

fun generate_mines_log ::
  "nat list \<Rightarrow> game \<Rightarrow> int \<Rightarrow> int \<Rightarrow> int \<Rightarrow> (int \<times> int) list \<Rightarrow> (game \<times> (int \<times> int) list) option" where
  "generate_mines_log rs g start_x start_y i ps =
     (if i < num_mines g then
        (case rs of
           r1 # r2 # rs' \<Rightarrow>
             (let x = c_rem (int r1) (width g); y = c_rem (int r2) (height g) in
              if \<not> (x = start_x \<and> y = start_y) then
                (if \<not> is_mine (cell_at g x y)
                 then generate_mines_log rs' (set_mine g x y) start_x start_y (i + 1) (ps @ [(x, y)])
                 else generate_mines_log rs' g start_x start_y i ps)
              else generate_mines_log rs' g start_x start_y i ps)
         | _ \<Rightarrow> None)
      else Some (g, ps))"

declare generate_mines_log.simps [simp del] generate_mines_loop.simps [simp del]

section \<open>Example boards and games\<close>

text \<open>A board for examples: the other variables as \<open>main\<close> initialises them.\<close>

definition board :: "int \<Rightarrow> int \<Rightarrow> int \<Rightarrow> cell list \<Rightarrow> game" where
  "board w h m cs =
     \<lparr>height = h, width = w, num_mines = m, cursor_x = 0, cursor_y = 0,
      game_active = True, new_game = False, custom_num_mines = False, cells = cs\<rparr>"

definition mk_cell :: "bool \<Rightarrow> cell_state \<Rightarrow> int \<Rightarrow> cell" where
  "mk_cell m s n = \<lparr>is_mine = m, state = s, neighbors = n\<rparr>"

text \<open>A row of two cells: a covered one and a flagged mine.\<close>

definition flag_example :: game where
  "flag_example = board 2 1 0 [mk_cell False COVERED 0, mk_cell True FLAGGED 0]"

text \<open>
  Two games. On a 3x2 board the first key press places the one mine at \<open>(2, 1)\<close>
  (\<open>rand()\<close> returns 2 and 1) and clears four cells; the player then uncovers the last
  safe cell and, after that, the mine. On a 1x1 board the player uncovers the only
  cell, starts a new game and moves the cursor.
\<close>

definition win_then_mine :: "(key \<times> nat list) list" where
  "win_then_mine =
     [(Ch CHR '' '', [2, 1]), (KEY_RIGHT, []), (KEY_RIGHT, []), (Ch CHR '' '', []),
      (KEY_DOWN, []), (Ch CHR '' '', [])]"

definition win_then_new_game :: "(key \<times> nat list) list" where
  "win_then_new_game = [(Ch CHR '' '', []), (Ch CHR ''n'', []), (KEY_LEFT, [])]"


text \<open>What a session shows: the states of the cells, where the mines are, the two rows.\<close>

definition shown :: "session option \<Rightarrow> (cell_state list \<times> bool list \<times> screen) option" where
  "shown r =
     map_option (\<lambda>s. (map state (cells (game_of s)), map is_mine (cells (game_of s)), screen_of s)) r"

text \<open>
  A 3x3 board with its mine at \<open>(0, 0)\<close> flagged and the centre uncovered, showing 1.
\<close>

definition chord_example :: game where
  "chord_example = board 3 3 1
     [mk_cell True FLAGGED 0, mk_cell False COVERED 1, mk_cell False COVERED 0,
      mk_cell False COVERED 1, mk_cell False UNCOVERED 1, mk_cell False COVERED 0,
      mk_cell False COVERED 0, mk_cell False COVERED 0, mk_cell False COVERED 0]"

text \<open>A 2x1 board, all covered, with a mine at \<open>(1, 0)\<close>.\<close>

definition reach_example :: game where
  "reach_example = board 2 1 1 [mk_cell False COVERED 1, mk_cell True COVERED 0]"

text \<open>A 3x2 board with a mine at \<open>(2, 0)\<close> and no counts yet.\<close>

definition count_example :: game where
  "count_example = board 3 2 1
     [mk_cell False COVERED 0, mk_cell False COVERED 0, mk_cell True COVERED 0,
      mk_cell False COVERED 0, mk_cell False COVERED 0, mk_cell False FLAGGED 0]"

text \<open>The zeroed 3x2 board, to hold one mine.\<close>

definition empty_example :: game where
  "empty_example = clear_cells (board 3 2 1 [])"

text \<open>
  Three boards with their counts. A 3x2 board, all covered, with a mine at \<open>(2, 0)\<close>;
  the same board with a flag on the safe cell \<open>(2, 1)\<close>; and a row of three cells
  without mines, the middle one flagged.
\<close>

definition cascade_example :: game where
  "cascade_example = board 3 2 1
     [mk_cell False COVERED 0, mk_cell False COVERED 1, mk_cell True COVERED 0,
      mk_cell False COVERED 0, mk_cell False COVERED 1, mk_cell False COVERED 1]"

definition wrong_flag_example :: game where
  "wrong_flag_example = board 3 2 1
     [mk_cell False COVERED 0, mk_cell False COVERED 1, mk_cell True COVERED 0,
      mk_cell False COVERED 0, mk_cell False COVERED 1, mk_cell False FLAGGED 1]"

definition flagged_zero_example :: game where
  "flagged_zero_example = board 3 1 0
     [mk_cell False COVERED 0, mk_cell False FLAGGED 0, mk_cell False COVERED 0]"

section \<open>Index arithmetic\<close>

lemma cell_index_less:
  assumes "in_grid g x y" and "allocated g"
  shows "cell_index g x y < length (cells g)"
proof -
  from assms(1) have x: "0 \<le> x" "x < width g" and y: "0 \<le> y" "y < height g"
    by (simp_all add: in_grid_def)
  have "y * width g + x < (y + 1) * width g"
    using x by (simp add: algebra_simps)
  also have "\<dots> \<le> height g * width g"
    using y x by (intro mult_right_mono) simp_all
  finally have "y * width g + x < height g * width g" .
  moreover have "0 \<le> y * width g + x" using x y by simp
  ultimately show ?thesis
    using assms(2) by (simp add: allocated_def cell_index_def)
qed

lemma cell_index_inj:
  assumes "in_grid g x y" and "in_grid g i j" and "cell_index g x y = cell_index g i j"
  shows "x = i \<and> y = j"
proof -
  from assms(1) have x: "0 \<le> x" "x < width g" and y: "0 \<le> y"
    by (simp_all add: in_grid_def)
  from assms(2) have i: "0 \<le> i" "i < width g" and j: "0 \<le> j"
    by (simp_all add: in_grid_def)
  have "0 \<le> y * width g + x" "0 \<le> j * width g + i"
    using x y i j by simp_all
  then have eq: "y * width g + x = j * width g + i"
    using assms(3) by (simp add: cell_index_def)
  have "(y * width g + x) mod width g = x" "(j * width g + i) mod width g = i"
    using x i by simp_all
  with eq have xi: "x = i" by simp
  with eq x have "y = j" by simp
  with xi show ?thesis by simp
qed

section \<open>Flag toggling\<close>

lemma cell_at_set_state_same:
  "in_grid g x y \<Longrightarrow> allocated g \<Longrightarrow> cell_at (set_state g x y s) x y = (cell_at g x y)\<lparr>state := s\<rparr>"
  using cell_index_less [of g x y]
  by (simp add: set_state_def cell_at_def cell_index_def)

text \<open>
  C9. \<open>flag\<close> turns a \<open>COVERED\<close> cell into a \<open>FLAGGED\<close> one and back, leaves an
  \<open>UNCOVERED\<close> or \<open>EXPLODED\<close> cell alone, changes no other cell, and applying it twice
  at the same coordinate gives back the board it started from.
\<close>

theorem flag_toggle_involution:
  assumes "in_grid g x y" and "allocated g"
  shows "cell_at (flag g x y) x y =
           (cell_at g x y)\<lparr>state :=
              (case state (cell_at g x y) of
                 COVERED \<Rightarrow> FLAGGED | FLAGGED \<Rightarrow> COVERED
               | UNCOVERED \<Rightarrow> UNCOVERED | EXPLODED \<Rightarrow> EXPLODED)\<rparr>
       \<and> (\<forall>k. k \<noteq> cell_index g x y \<longrightarrow> cells (flag g x y) ! k = cells g ! k)
       \<and> flag (flag g x y) x y = g"
proof (intro conjI)
  show "cell_at (flag g x y) x y =
           (cell_at g x y)\<lparr>state :=
              (case state (cell_at g x y) of
                 COVERED \<Rightarrow> FLAGGED | FLAGGED \<Rightarrow> COVERED
               | UNCOVERED \<Rightarrow> UNCOVERED | EXPLODED \<Rightarrow> EXPLODED)\<rparr>"
    using assms by (cases "state (cell_at g x y)") (simp_all add: flag_def cell_at_set_state_same)
  show "\<forall>k. k \<noteq> cell_index g x y \<longrightarrow> cells (flag g x y) ! k = cells g ! k"
    by (simp add: flag_def set_state_def)
  have idx: "cell_index g x y < length (cells g)"
    using assms by (rule cell_index_less)
  show "flag (flag g x y) x y = g"
    using idx
    by (cases "state (cell_at g x y)")
       (simp_all add: flag_def set_state_def cell_at_def cell_index_def list_update_same_conv)
qed

theorem flag_toggle_involution_witness:
  "state (cell_at (flag flag_example 1 0) 1 0) = COVERED
   \<and> flag (flag flag_example 1 0) 1 0 = flag_example"
proof -
  have h1: "in_grid flag_example 1 0"
    by (simp add: in_grid_def flag_example_def board_def)
  have h2: "allocated flag_example"
    by (simp add: allocated_def flag_example_def board_def)
  have "state (cell_at flag_example 1 0) = FLAGGED"
    by (simp add: cell_at_def cell_index_def flag_example_def board_def mk_cell_def)
  with flag_toggle_involution [OF h1 h2] show ?thesis by simp
qed

section \<open>The window and the loops\<close>

lemma window_unfold:
  "window x y = [(x - 1, y - 1), (x, y - 1), (x + 1, y - 1),
                 (x - 1, y), (x, y), (x + 1, y),
                 (x - 1, y + 1), (x, y + 1), (x + 1, y + 1)]"
proof -
  have "[x - 1..x + 1] = [x - 1, x, x + 1]" for x :: int
  proof -
    have "[x - 1..x + 1] = (x - 1) # [x..x + 1]"
      using upto_rec1 [of "x - 1" "x + 1"] by simp
    also have "[x..x + 1] = x # [x + 1..x + 1]"
      using upto_rec1 [of x "x + 1"] by simp
    finally show ?thesis by simp
  qed
  then show ?thesis by (simp add: window_def)
qed

lemma cell_unveils_refl: "cell_unveils c c"
  by (simp add: cell_unveils_def)

lemma cell_unveils_trans: "cell_unveils a b \<Longrightarrow> cell_unveils b c \<Longrightarrow> cell_unveils a c"
  by (auto simp: cell_unveils_def)

lemma unveils_refl: "unveils g g"
  by (simp add: unveils_def cell_unveils_refl)

lemma unveils_trans:
  assumes "unveils a b" and "unveils b c"
  shows "unveils a c"
proof -
  have "c\<lparr>cells := []\<rparr> = a\<lparr>cells := []\<rparr>"
    using assms by (simp add: unveils_def)
  moreover have "length (cells c) = length (cells a)"
    using assms by (simp add: unveils_def)
  moreover have "\<forall>k<length (cells a). cell_unveils (cells a ! k) (cells c ! k)"
    using assms by (auto simp: unveils_def intro: cell_unveils_trans)
  ultimately show ?thesis by (simp add: unveils_def)
qed

lemma unveils_fields:
  assumes "unveils g g'"
  shows "width g' = width g" "height g' = height g" "num_mines g' = num_mines g"
    "length (cells g') = length (cells g)"
proof -
  have e: "g'\<lparr>cells := []\<rparr> = g\<lparr>cells := []\<rparr>" using assms by (simp add: unveils_def)
  show "width g' = width g" using arg_cong [OF e, of width] by simp
  show "height g' = height g" using arg_cong [OF e, of height] by simp
  show "num_mines g' = num_mines g" using arg_cong [OF e, of num_mines] by simp
  show "length (cells g') = length (cells g)" using assms by (simp add: unveils_def)
qed

lemma unveils_allocated: "unveils g g' \<Longrightarrow> allocated g \<Longrightarrow> allocated g'"
  by (simp add: allocated_def unveils_fields)

lemma unveils_in_grid: "unveils g g' \<Longrightarrow> in_grid g' i j = in_grid g i j"
  by (simp add: in_grid_def unveils_fields)

lemma unveils_cell_index: "unveils g g' \<Longrightarrow> cell_index g' i j = cell_index g i j"
  by (simp add: cell_index_def unveils_fields)

lemma unveils_set_state:
  assumes "in_grid g x y" and "allocated g" and "state (cell_at g x y) = COVERED"
    and "s = (if is_mine (cell_at g x y) then EXPLODED else UNCOVERED)"
  shows "unveils g (set_state g x y s)"
proof -
  have idx: "cell_index g x y < length (cells g)"
    using assms(1,2) by (rule cell_index_less)
  show ?thesis
    unfolding unveils_def
  proof (intro conjI allI impI)
    show "(set_state g x y s)\<lparr>cells := []\<rparr> = g\<lparr>cells := []\<rparr>"
      by (simp add: set_state_def)
    show "length (cells (set_state g x y s)) = length (cells g)"
      by (simp add: set_state_def)
    fix k assume "k < length (cells g)"
    then show "cell_unveils (cells g ! k) (cells (set_state g x y s) ! k)"
      using assms(3,4) idx
      by (cases "k = cell_index g x y")
         (simp_all add: set_state_def cell_unveils_def cell_at_def)
  qed
qed

lemma for_each_preserves:
  assumes "for_each f s ps = Some s'" and "Q s"
    and "\<And>a p b. Q a \<Longrightarrow> p \<in> set ps \<Longrightarrow> f a p = Some b \<Longrightarrow> Q b"
  shows "Q s'"
  using assms
proof (induction ps arbitrary: s)
  case Nil
  then show ?case by simp
next
  case (Cons p ps)
  from Cons.prems(1) obtain s1 where s1: "f s p = Some s1" "for_each f s1 ps = Some s'"
    by (auto split: option.splits)
  have "Q s1"
    by (rule Cons.prems(3) [OF Cons.prems(2) _ s1(1)]) simp
  show ?case
  proof (rule Cons.IH [OF s1(2) \<open>Q s1\<close>])
    fix a q b
    assume "Q a" "q \<in> set ps" "f a q = Some b"
    then show "Q b" using Cons.prems(3) [of a q b] by simp
  qed
qed


lemma uncover_fuel_mine:
  "state (cell_at g x y) = COVERED \<Longrightarrow> is_mine (cell_at g x y) \<Longrightarrow>
   uncover_fuel (Suc n) g x y = Some (set_state g x y EXPLODED)"
  by (simp add: uncover_fuel.simps)

lemma uncover_fuel_number:
  "state (cell_at g x y) = COVERED \<Longrightarrow> \<not> is_mine (cell_at g x y) \<Longrightarrow>
   neighbors (cell_at (set_state g x y UNCOVERED) x y) \<noteq> 0 \<Longrightarrow>
   uncover_fuel (Suc n) g x y = Some (set_state g x y UNCOVERED)"
  by (simp add: uncover_fuel.simps)

lemma uncover_fuel_zero:
  "state (cell_at g x y) = COVERED \<Longrightarrow> \<not> is_mine (cell_at g x y) \<Longrightarrow>
   neighbors (cell_at (set_state g x y UNCOVERED) x y) = 0 \<Longrightarrow>
   uncover_fuel (Suc n) g x y =
     for_each (cascade_body n x y) (set_state g x y UNCOVERED) (window x y)"
  by (simp add: uncover_fuel.simps)

lemma uncover_fuel_chord:
  "state (cell_at g x y) = UNCOVERED \<Longrightarrow> flags_remaining g x y = 0 \<Longrightarrow>
   uncover_fuel (Suc n) g x y = for_each (chord_body n x y) g (window x y)"
  by (simp add: uncover_fuel.simps)

lemma uncover_fuel_no_chord:
  "state (cell_at g x y) = UNCOVERED \<Longrightarrow> flags_remaining g x y \<noteq> 0 \<Longrightarrow>
   uncover_fuel (Suc n) g x y = Some g"
  by (simp add: uncover_fuel.simps)

lemma uncover_fuel_other:
  "state (cell_at g x y) \<noteq> COVERED \<Longrightarrow> state (cell_at g x y) \<noteq> UNCOVERED \<Longrightarrow>
   uncover_fuel (Suc n) g x y = Some g"
  by (simp add: uncover_fuel.simps)


lemma uncover_fuel_cases [consumes 1, case_names mine number zero chord other]:
  assumes "uncover_fuel n g x y = Some g'"
  obtains
    (mine) m where "n = Suc m" "state (cell_at g x y) = COVERED" "is_mine (cell_at g x y)"
      "g' = set_state g x y EXPLODED"
  | (number) m where "n = Suc m" "state (cell_at g x y) = COVERED" "\<not> is_mine (cell_at g x y)"
      "neighbors (cell_at (set_state g x y UNCOVERED) x y) \<noteq> 0"
      "g' = set_state g x y UNCOVERED"
  | (zero) m where "n = Suc m" "state (cell_at g x y) = COVERED" "\<not> is_mine (cell_at g x y)"
      "neighbors (cell_at (set_state g x y UNCOVERED) x y) = 0"
      "for_each (cascade_body m x y) (set_state g x y UNCOVERED) (window x y) = Some g'"
  | (chord) m where "n = Suc m" "state (cell_at g x y) = UNCOVERED" "flags_remaining g x y = 0"
      "for_each (chord_body m x y) g (window x y) = Some g'"
  | (other) m where "n = Suc m" "state (cell_at g x y) \<noteq> COVERED"
      "state (cell_at g x y) = UNCOVERED \<longrightarrow> flags_remaining g x y \<noteq> 0" "g' = g"
proof (cases n)
  case 0
  then show ?thesis using assms by (simp add: uncover_fuel.simps)
next
  case (Suc m)
  have r: "uncover_fuel (Suc m) g x y = Some g'" using assms Suc by simp
  show ?thesis
  proof (cases "state (cell_at g x y) = COVERED")
    case True
    note cov = True
    show ?thesis
    proof (cases "is_mine (cell_at g x y)")
      case True
      have "g' = set_state g x y EXPLODED"
        using r uncover_fuel_mine [OF cov True, of m] by simp
      then show ?thesis by (rule mine [OF Suc cov True])
    next
      case False
      note nm = False
      show ?thesis
      proof (cases "neighbors (cell_at (set_state g x y UNCOVERED) x y) = 0")
        case True
        have "for_each (cascade_body m x y) (set_state g x y UNCOVERED) (window x y) = Some g'"
          using r uncover_fuel_zero [OF cov nm True, of m] by simp
        then show ?thesis by (rule zero [OF Suc cov nm True])
      next
        case False
        have "g' = set_state g x y UNCOVERED"
          using r uncover_fuel_number [OF cov nm False, of m] by simp
        then show ?thesis by (rule number [OF Suc cov nm False])
      qed
    qed
  next
    case False
    note ncov = False
    show ?thesis
    proof (cases "state (cell_at g x y) = UNCOVERED")
      case True
      note unc = True
      show ?thesis
      proof (cases "flags_remaining g x y = 0")
        case True
        have "for_each (chord_body m x y) g (window x y) = Some g'"
          using r uncover_fuel_chord [OF unc True, of m] by simp
        then show ?thesis by (rule chord [OF Suc unc True])
      next
        case False
        have "g' = g"
          using r uncover_fuel_no_chord [OF unc False, of m] by simp
        with False show ?thesis by (intro other [OF Suc ncov]) simp_all
      qed
    next
      case False
      have "g' = g"
        using r uncover_fuel_other [OF ncov False, of m] by simp
      with False show ?thesis by (intro other [OF Suc ncov]) simp_all
    qed
  qed
qed

lemma unveils_explode:
  "in_grid g x y \<Longrightarrow> allocated g \<Longrightarrow> state (cell_at g x y) = COVERED \<Longrightarrow>
   is_mine (cell_at g x y) \<Longrightarrow> unveils g (set_state g x y EXPLODED)"
  by (rule unveils_set_state) simp_all

lemma unveils_uncover:
  "in_grid g x y \<Longrightarrow> allocated g \<Longrightarrow> state (cell_at g x y) = COVERED \<Longrightarrow>
   \<not> is_mine (cell_at g x y) \<Longrightarrow> unveils g (set_state g x y UNCOVERED)"
  by (rule unveils_set_state) simp_all

lemma uncover_fuel_unveils:
  "in_grid g x y \<Longrightarrow> allocated g \<Longrightarrow> uncover_fuel n g x y = Some g' \<Longrightarrow> unveils g g'"
proof (induction n arbitrary: g x y g')
  case 0
  then show ?case by (simp add: uncover_fuel.simps)
next
  case (Suc n)
  note IH = Suc.IH
  have step: "unveils g b"
    if "unveils g a" and "in_grid a i j \<and> c \<Longrightarrow> uncover_fuel n a i j = Some b"
      and "\<not> (in_grid a i j \<and> c) \<Longrightarrow> b = a"
    for a b i j c
  proof (cases "in_grid a i j \<and> c")
    case True
    then have "uncover_fuel n a i j = Some b" by (rule that(2))
    moreover have "allocated a" using that(1) Suc.prems(2) by (rule unveils_allocated)
    moreover have "in_grid a i j" using True by simp
    ultimately have "unveils a b" by (intro IH)
    with that(1) show ?thesis by (rule unveils_trans)
  next
    case False
    then have "b = a" by (rule that(3))
    then show ?thesis using that(1) by simp
  qed
  from Suc.prems(3) show ?case
  proof (cases rule: uncover_fuel_cases)
    case (mine m)
    then show ?thesis using unveils_explode [OF Suc.prems(1,2)] by simp
  next
    case (number m)
    then show ?thesis using unveils_uncover [OF Suc.prems(1,2)] by simp
  next
    case (zero m)
    have m: "m = n" using zero(1) by simp
    have g1: "unveils g (set_state g x y UNCOVERED)"
      using zero(2,3) by (intro unveils_uncover Suc.prems)
    from zero(5) g1 show ?thesis
    proof (rule for_each_preserves)
      fix a p b
      assume a: "unveils g a" and b: "cascade_body m x y a p = Some b"
      obtain i j where p: "p = (i, j)" by (cases p)
      show "unveils g b"
      proof (rule step [OF a, of i j "\<not> (i = x \<and> j = y)"])
        assume "in_grid a i j \<and> \<not> (i = x \<and> j = y)"
        then show "uncover_fuel n a i j = Some b" using b p m by simp
      next
        assume "\<not> (in_grid a i j \<and> \<not> (i = x \<and> j = y))"
        then show "b = a" using b p by (simp split: if_splits)
      qed
    qed
  next
    case (chord m)
    have m: "m = n" using chord(1) by simp
    from chord(4) unveils_refl [of g] show ?thesis
    proof (rule for_each_preserves)
      fix a p b
      assume a: "unveils g a" and b: "chord_body m x y a p = Some b"
      obtain i j where p: "p = (i, j)" by (cases p)
      show "unveils g b"
      proof (rule step [OF a, of i j "\<not> (i = x \<and> j = y) \<and> state (cell_at a i j) = COVERED"])
        assume "in_grid a i j \<and> \<not> (i = x \<and> j = y) \<and> state (cell_at a i j) = COVERED"
        then show "uncover_fuel n a i j = Some b" using b p m by simp
      next
        assume "\<not> (in_grid a i j \<and> \<not> (i = x \<and> j = y) \<and> state (cell_at a i j) = COVERED)"
        then show "b = a" using b p by (simp split: if_splits)
      qed
    qed
  next
    case (other m)
    then show ?thesis by (simp add: unveils_refl)
  qed
qed

lemma covered_count_le_length: "covered_count g \<le> length (cells g)"
proof -
  have "{k. k < length (cells g) \<and> state (cells g ! k) = COVERED} \<subseteq> {..<length (cells g)}"
    by auto
  then have "covered_count g \<le> card {..<length (cells g)}"
    unfolding covered_count_def by (intro card_mono) simp_all
  then show ?thesis by simp
qed

lemma cell_unveils_covered: "cell_unveils c c' \<Longrightarrow> state c' = COVERED \<Longrightarrow> state c = COVERED"
  by (auto simp: cell_unveils_def split: if_splits)

lemma cell_unveils_not_covered: "cell_unveils c c' \<Longrightarrow> state c \<noteq> COVERED \<Longrightarrow> c' = c"
  by (auto simp: cell_unveils_def)

lemma unveils_nth:
  "unveils g g' \<Longrightarrow> k < length (cells g) \<Longrightarrow> cell_unveils (cells g ! k) (cells g' ! k)"
  by (simp add: unveils_def)

lemma unveils_cell_at:
  assumes "unveils g g'" and "in_grid g i j" and "allocated g"
  shows "cell_unveils (cell_at g i j) (cell_at g' i j)"
proof -
  have "cell_index g i j < length (cells g)" using assms(2,3) by (rule cell_index_less)
  then have "cell_unveils (cells g ! cell_index g i j) (cells g' ! cell_index g i j)"
    using assms(1) by (simp add: unveils_nth)
  then show ?thesis
    using assms(1) by (simp add: cell_at_def unveils_cell_index)
qed

lemma unveils_covered_count:
  assumes "unveils g g'"
  shows "covered_count g' \<le> covered_count g"
proof -
  have "{k. k < length (cells g') \<and> state (cells g' ! k) = COVERED}
        \<subseteq> {k. k < length (cells g) \<and> state (cells g ! k) = COVERED}"
    using assms unveils_fields(4) [OF assms] unveils_nth [OF assms]
    by (auto dest: cell_unveils_covered)
  then show ?thesis
    unfolding covered_count_def by (intro card_mono) simp_all
qed

lemma set_state_covered_count:
  assumes "in_grid g x y" and "allocated g" and "state (cell_at g x y) = COVERED"
    and "s \<noteq> COVERED"
  shows "covered_count (set_state g x y s) < covered_count g"
proof -
  let ?i = "cell_index g x y"
  have idx: "?i < length (cells g)" using assms(1,2) by (rule cell_index_less)
  have "{k. k < length (cells (set_state g x y s)) \<and> state (cells (set_state g x y s) ! k) = COVERED}
        \<subset> {k. k < length (cells g) \<and> state (cells g ! k) = COVERED}" (is "?A \<subset> ?B")
  proof
    show "?A \<subseteq> ?B"
    proof
      fix k assume "k \<in> ?A"
      then show "k \<in> ?B"
        using assms(4) idx by (cases "k = ?i") (simp_all add: set_state_def)
    qed
    have "?i \<in> ?B" using idx assms(3) by (simp add: cell_at_def)
    moreover have "?i \<notin> ?A" using idx assms(4) by (simp add: set_state_def)
    ultimately show "?A \<noteq> ?B" by blast
  qed
  then show ?thesis
    unfolding covered_count_def by (intro psubset_card_mono) simp_all
qed

lemma for_each_Some:
  assumes "Q s"
    and "\<And>a p. Q a \<Longrightarrow> p \<in> set ps \<Longrightarrow> \<exists>b. f a p = Some b \<and> Q b"
  shows "\<exists>s'. for_each f s ps = Some s' \<and> Q s'"
  using assms
proof (induction ps arbitrary: s)
  case Nil
  then show ?case by simp
next
  case (Cons p ps)
  have "\<exists>b. f s p = Some b \<and> Q b"
    by (rule Cons.prems(2) [OF Cons.prems(1)]) simp
  then obtain s1 where s1: "f s p = Some s1" "Q s1" by blast
  have "\<exists>s'. for_each f s1 ps = Some s' \<and> Q s'"
  proof (rule Cons.IH [OF s1(2)])
    fix a q
    assume "Q a" "q \<in> set ps"
    then show "\<exists>b. f a q = Some b \<and> Q b" using Cons.prems(2) [of a q] by simp
  qed
  then show ?case using s1(1) by simp
qed

lemma uncover_fuel_terminates:
  "in_grid g x y \<Longrightarrow> allocated g \<Longrightarrow>
   2 * covered_count g + (if state (cell_at g x y) = COVERED then 0 else 1) < n \<Longrightarrow>
   \<exists>g'. uncover_fuel n g x y = Some g'"
proof (induction n arbitrary: g x y)
  case 0
  then show ?case by simp
next
  case (Suc n)
  note IH = Suc.IH
  show ?case
  proof (cases "state (cell_at g x y) = COVERED")
    case True
    note cov = True
    show ?thesis
    proof (cases "is_mine (cell_at g x y)")
      case True
      then show ?thesis using uncover_fuel_mine [OF cov True] by simp
    next
      case False
      note nm = False
      let ?g1 = "set_state g x y UNCOVERED"
      show ?thesis
      proof (cases "neighbors (cell_at ?g1 x y) = 0")
        case False
        then show ?thesis using uncover_fuel_number [OF cov nm False] by simp
      next
        case True
        have g1: "unveils g ?g1" using Suc.prems(1,2) cov nm by (rule unveils_uncover)
        have less: "covered_count ?g1 < covered_count g"
          using Suc.prems(1,2) cov by (rule set_state_covered_count) simp
        have "\<exists>s'. for_each (cascade_body n x y) ?g1 (window x y) = Some s' \<and> unveils ?g1 s'"
        proof (rule for_each_Some [where Q = "unveils ?g1"])
          show "unveils ?g1 ?g1" by (rule unveils_refl)
        next
          fix a and p :: "int \<times> int"
          assume a: "unveils ?g1 a"
          obtain i j where p: "p = (i, j)" by (cases p)
          have alloc: "allocated a"
            using a unveils_allocated [OF g1 Suc.prems(2)] by (rule unveils_allocated)
          show "\<exists>b. cascade_body n x y a p = Some b \<and> unveils ?g1 b"
          proof (cases "in_grid a i j \<and> \<not> (i = x \<and> j = y)")
            case True
            then have ig: "in_grid a i j" by simp
            have "covered_count a \<le> covered_count ?g1" using a by (rule unveils_covered_count)
            then have "2 * covered_count a + (if state (cell_at a i j) = COVERED then 0 else 1) < n"
              using less Suc.prems(3) cov by (simp split: if_splits)
            with ig alloc have "\<exists>b. uncover_fuel n a i j = Some b" by (rule IH)
            then obtain b where b: "uncover_fuel n a i j = Some b" by blast
            have "unveils a b" using ig alloc b by (rule uncover_fuel_unveils)
            with a have "unveils ?g1 b" by (rule unveils_trans)
            then show ?thesis using b True p by simp
          next
            case False
            then show ?thesis using a p by auto
          qed
        qed
        then show ?thesis using uncover_fuel_zero [OF cov nm True] by auto
      qed
    qed
  next
    case False
    note ncov = False
    show ?thesis
    proof (cases "state (cell_at g x y) = UNCOVERED")
      case False
      then show ?thesis using uncover_fuel_other [OF ncov False] by simp
    next
      case True
      note unc = True
      show ?thesis
      proof (cases "flags_remaining g x y = 0")
        case False
        then show ?thesis using uncover_fuel_no_chord [OF unc False] by simp
      next
        case True
        have "\<exists>s'. for_each (chord_body n x y) g (window x y) = Some s' \<and> unveils g s'"
        proof (rule for_each_Some [where Q = "unveils g"])
          show "unveils g g" by (rule unveils_refl)
        next
          fix a and p :: "int \<times> int"
          assume a: "unveils g a"
          obtain i j where p: "p = (i, j)" by (cases p)
          have alloc: "allocated a" using a Suc.prems(2) by (rule unveils_allocated)
          show "\<exists>b. chord_body n x y a p = Some b \<and> unveils g b"
          proof (cases "in_grid a i j \<and> \<not> (i = x \<and> j = y) \<and> state (cell_at a i j) = COVERED")
            case True
            then have ig: "in_grid a i j" and c: "state (cell_at a i j) = COVERED" by simp_all
            have "covered_count a \<le> covered_count g" using a by (rule unveils_covered_count)
            then have "2 * covered_count a + (if state (cell_at a i j) = COVERED then 0 else 1) < n"
              using Suc.prems(3) ncov c by simp
            with ig alloc have "\<exists>b. uncover_fuel n a i j = Some b" by (rule IH)
            then obtain b where b: "uncover_fuel n a i j = Some b" by blast
            have "unveils a b" using ig alloc b by (rule uncover_fuel_unveils)
            with a have "unveils g b" by (rule unveils_trans)
            then show ?thesis using b True p by simp
          next
            case False
            then show ?thesis using a p by auto
          qed
        qed
        then show ?thesis using uncover_fuel_chord [OF unc True] by auto
      qed
    qed
  qed
qed

lemma uncover_returns:
  assumes "in_grid g x y" and "allocated g"
  shows "\<exists>g'. uncover g x y = Some g'"
proof -
  have "2 * covered_count g + (if state (cell_at g x y) = COVERED then 0 else 1)
        < 2 * length (cells g) + 2"
    using covered_count_le_length [of g] by simp
  with assms show ?thesis
    unfolding uncover_def by (rule uncover_fuel_terminates)
qed

section \<open>The status line and the exploding mine\<close>

lemma set_grid_coords: "set (grid_coords g) = {(x, y). in_grid g x y}"
  by (auto simp: grid_coords_def in_grid_def)

lemma fold_concat: "fold f (concat xss) s = fold (fold f) xss s"
  by (induction xss arbitrary: s) simp_all

lemma draw_loop_flat:
  "draw_loop g v0 = fold (\<lambda>(x, y) v. draw_cell g v x y) (grid_coords g) v0"
  by (simp add: draw_loop_def grid_coords_def fold_concat fold_map comp_def)

lemma gameover_draw_cell:
  "gameover (draw_cell g v x y) \<longleftrightarrow> gameover v \<or> state (cell_at g x y) = EXPLODED"
  by (cases "state (cell_at g x y)") (simp_all add: draw_cell_def Let_def)

lemma status_row_draw_cell:
  "status_row (scr (draw_cell g v x y)) =
     (if gameover (draw_cell g v x y) then Some Game_Over
      else if uncovers_remaining (draw_cell g v x y) = 0 then None
      else Some (Unflagged_Mines (unflagged_mines (draw_cell g v x y))))"
  by (cases "state (cell_at g x y)") (simp_all add: draw_cell_def Let_def)

lemma gameover_fold_draw_cell:
  "gameover (fold (\<lambda>(x, y) v. draw_cell g v x y) ps v) \<longleftrightarrow>
     gameover v \<or> (\<exists>(x, y)\<in>set ps. state (cell_at g x y) = EXPLODED)"
proof (induction ps arbitrary: v)
  case Nil
  then show ?case by simp
next
  case (Cons p ps)
  obtain x y where p: "p = (x, y)" by (cases p)
  show ?case using Cons.IH [of "draw_cell g v x y"] p
    by (auto simp: gameover_draw_cell)
qed

lemma status_row_fold_draw_cell:
  assumes "ps \<noteq> []"
  shows "status_row (scr (fold (\<lambda>(x, y) v. draw_cell g v x y) ps v)) =
     (let v' = fold (\<lambda>(x, y) v. draw_cell g v x y) ps v in
      if gameover v' then Some Game_Over
      else if uncovers_remaining v' = 0 then None
      else Some (Unflagged_Mines (unflagged_mines v')))"
proof -
  obtain qs p where ps: "ps = qs @ [p]"
    using assms by (cases ps rule: rev_cases) simp_all
  obtain x y where p: "p = (x, y)" by (cases p)
  show ?thesis
    unfolding ps p by (simp add: Let_def status_row_draw_cell)
qed

text \<open>
  With an exploded cell on the board the status line is \<open>Game Over\<close> (on a terminal of
  at least \<open>height + 2\<close> lines, as the screen of the model is). Nothing is said here of
  row \<open>height\<close>.
\<close>

lemma draw_exploded:
  assumes "in_grid g x y" and "state (cell_at g x y) = EXPLODED"
  shows "status_row (draw g s) = Some Game_Over"
proof -
  let ?v0 = "\<lparr>gameover = False, unflagged_mines = num_mines g,
             uncovers_remaining = height g * width g - num_mines g, scr = s\<rparr>"
  have mem: "(x, y) \<in> set (grid_coords g)" using assms(1) by (simp add: set_grid_coords)
  then have ne: "grid_coords g \<noteq> []" by auto
  have "gameover (fold (\<lambda>(x, y) v. draw_cell g v x y) (grid_coords g) ?v0)"
    unfolding gameover_fold_draw_cell using mem assms(2) by auto
  then show ?thesis
    unfolding draw_def draw_loop_flat status_row_fold_draw_cell [OF ne] by (simp add: Let_def)
qed

lemma uncover_mine:
  assumes "state (cell_at g x y) = COVERED" and "is_mine (cell_at g x y)"
  shows "uncover g x y = Some (set_state g x y EXPLODED)"
proof -
  have "2 * length (cells g) + 2 = Suc (2 * length (cells g) + 1)" by simp
  then show ?thesis
    unfolding uncover_def using uncover_fuel_mine [OF assms] by simp
qed

text \<open>
  On every board, revealing a covered mine writes \<open>EXPLODED\<close> into that cell and
  nothing else: there is no cascade.
\<close>

lemma uncover_mine_only_cell:
  assumes "in_grid g x y" and "allocated g"
    and "state (cell_at g x y) = COVERED" and "is_mine (cell_at g x y)"
  shows "uncover g x y = Some (set_state g x y EXPLODED)
       \<and> cell_at (set_state g x y EXPLODED) x y = (cell_at g x y)\<lparr>state := EXPLODED\<rparr>
       \<and> (\<forall>k. k \<noteq> cell_index g x y \<longrightarrow> cells (set_state g x y EXPLODED) ! k = cells g ! k)"
proof (intro conjI allI impI)
  show "uncover g x y = Some (set_state g x y EXPLODED)"
    using assms(3,4) by (rule uncover_mine)
  show "cell_at (set_state g x y EXPLODED) x y = (cell_at g x y)\<lparr>state := EXPLODED\<rparr>"
    using assms(1,2) by (rule cell_at_set_state_same)
  show "cells (set_state g x y EXPLODED) ! k = cells g ! k" if "k \<noteq> cell_index g x y" for k
    using that by (simp add: set_state_def)
qed


section \<open>The number of mines and the win message\<close>

lemma parse_opt_custom:
  "custom_num_mines (snd (parse_opt key arg g)) = custom_num_mines g"
  by (simp add: parse_opt_def split: option.splits)

lemma fold_parse_opt_custom:
  "custom_num_mines (fold (\<lambda>(key, arg) g. snd (parse_opt key arg g)) opts g) = custom_num_mines g"
  by (induction opts arbitrary: g) (simp_all add: parse_opt_custom split: prod.splits)

lemma main_setup_num_mines:
  "num_mines (main_setup opts) =
     c_div (width (main_setup opts) * height (main_setup opts)) MINE_GEN_RATIO"
  by (simp add: main_setup_def Let_def clear_cells_def fold_parse_opt_custom initial_game_def)

text \<open>
  C8. Without \<open>-m\<close> the number of mines is \<open>width * height / 6\<close>. With \<open>-m\<close> it is the
  same: \<open>parse_opt\<close> stores the number in \<open>num_mines\<close> but nothing ever sets
  \<open>custom_num_mines\<close>, so \<open>main\<close> overwrites it. On the default 20x20 board \<open>-m 10\<close>
  gives 66 mines.
\<close>

theorem mines_option_overwritten:
  "num_mines (snd (parse_opt CHR ''m'' (Some 10) initial_game)) = 10
   \<and> num_mines (main_setup [(CHR ''m'', Some 10)]) = 66
   \<and> (\<forall>opts. num_mines (main_setup opts) =
         c_div (width (main_setup opts) * height (main_setup opts)) 6)"
proof (intro conjI allI)
  show "num_mines (snd (parse_opt CHR ''m'' (Some 10) initial_game)) = 10"
    by (simp add: parse_opt_def)
  show "num_mines (main_setup opts) = c_div (width (main_setup opts) * height (main_setup opts)) 6"
    for opts
    using main_setup_num_mines [of opts] by (simp add: MINE_GEN_RATIO_def)
  have "width (main_setup [(CHR ''m'', Some 10)]) = 20" "height (main_setup [(CHR ''m'', Some 10)]) = 20"
    by (simp_all add: main_setup_def Let_def clear_cells_def parse_opt_def initial_game_def)
  then show "num_mines (main_setup [(CHR ''m'', Some 10)]) = 66"
    using main_setup_num_mines [of "[(CHR ''m'', Some 10)]"]
    by (simp add: MINE_GEN_RATIO_def c_div_def)
qed

text \<open>
  C1. \<open>draw\<close> writes \<open>You Win!\<close> on row \<open>height\<close> and clears only row \<open>height + 1\<close>,
  and it decides what to write inside the loop over the cells, on the counts so far.
  In the first game the screen ends with \<open>You Win!\<close> above \<open>Game Over\<close> while a cell
  is \<open>EXPLODED\<close>; in the second it shows \<open>You Win!\<close> while the only cell, which is not a
  mine, is \<open>COVERED\<close>.
\<close>

theorem win_reported_wrongly:
  "shown (game_loop win_then_mine (start_session [(CHR ''w'', Some 3), (CHR ''h'', Some 2)])) =
     Some ([UNCOVERED, UNCOVERED, UNCOVERED, UNCOVERED, UNCOVERED, EXPLODED],
           [False, False, False, False, False, True],
           \<lparr>win_row = Some You_Win, status_row = Some Game_Over\<rparr>)
   \<and> shown (game_loop win_then_new_game (start_session [(CHR ''w'', Some 1), (CHR ''h'', Some 1)])) =
     Some ([COVERED], [False],
           \<lparr>win_row = Some You_Win, status_row = Some (Unflagged_Mines 0)\<rparr>)"
  by code_simp

section \<open>Revealing an uncovered cell\<close>

lemma set_window: "set (window x y) = {(i, j). \<bar>i - x\<bar> \<le> 1 \<and> \<bar>j - y\<bar> \<le> 1}"
proof -
  have "{x - 1..x + 1} = {i. \<bar>i - x\<bar> \<le> 1}" for x :: int by auto
  then show ?thesis by (auto simp: window_def)
qed

lemma distinct_window: "distinct (window x y)"
  by (simp add: window_unfold)

lemma fold_count_down:
  "fold (\<lambda>p n. if P p then n - 1 else n) ps (n0 :: int) = n0 - int (length (filter P ps))"
  by (induction ps arbitrary: n0) simp_all

lemma fold_count_up:
  "fold (\<lambda>p n. if P p then n + 1 else n) ps (n0 :: int) = n0 + int (length (filter P ps))"
  by (induction ps arbitrary: n0) simp_all

lemma window_filter_card:
  "length (filter (\<lambda>(i, j). in_grid g i j \<and> \<not> (i = x \<and> j = y) \<and> P i j) (window x y)) =
     card {(i, j). in_grid g i j \<and> neighbor_of x y i j \<and> P i j}"
proof -
  have "{p. case p of (i, j) \<Rightarrow> in_grid g i j \<and> \<not> (i = x \<and> j = y) \<and> P i j} \<inter> set (window x y)
        = {(i, j). in_grid g i j \<and> neighbor_of x y i j \<and> P i j}"
    by (auto simp: set_window neighbor_of_def)
  then show ?thesis
    using distinct_length_filter [OF distinct_window, of _ x y] by simp
qed

lemma flags_remaining_eq:
  "flags_remaining g x y = neighbors (cell_at g x y) - int (flagged_neighbors g x y)"
proof -
  have "flags_remaining g x y =
          fold (\<lambda>p n. if (case p of (i, j) \<Rightarrow>
                  in_grid g i j \<and> \<not> (i = x \<and> j = y) \<and> state (cell_at g i j) = FLAGGED)
                then n - 1 else n)
               (window x y) (neighbors (cell_at g x y))"
    unfolding flags_remaining_def by (rule arg_cong [where f = "\<lambda>f. fold f _ _"]) auto
  then show ?thesis
    by (simp only: fold_count_down window_filter_card flagged_neighbors_def)
qed

lemma for_each_establishes:
  assumes "for_each f s ps = Some s'" and "Q s"
    and step: "\<And>a p b. Q a \<Longrightarrow> p \<in> set ps \<Longrightarrow> f a p = Some b \<Longrightarrow> Q b \<and> R p b"
    and keep: "\<And>a p q b. Q a \<Longrightarrow> p \<in> set ps \<Longrightarrow> f a p = Some b \<Longrightarrow> R q a \<Longrightarrow> R q b"
  shows "\<forall>p\<in>set ps. R p s'"
  using assms
proof (induction ps arbitrary: s)
  case Nil
  then show ?case by simp
next
  case (Cons p ps)
  from Cons.prems(1) obtain s1 where s1: "f s p = Some s1" "for_each f s1 ps = Some s'"
    by (auto split: option.splits)
  have q1: "Q s1 \<and> R p s1"
    by (rule Cons.prems(3) [OF Cons.prems(2) _ s1(1)]) simp
  have rest: "\<forall>q\<in>set ps. R q s'"
  proof (rule Cons.IH [OF s1(2)])
    show "Q s1" using q1 by simp
  next
    fix a q b
    assume "Q a" "q \<in> set ps" "f a q = Some b"
    then show "Q b \<and> R q b" using Cons.prems(3) [of a q b] by simp
  next
    fix a q r b
    assume "Q a" "q \<in> set ps" "f a q = Some b" "R r a"
    then show "R r b" using Cons.prems(4) [of a q b r] by simp
  qed
  have "Q s' \<and> R p s'"
    using s1(2)
  proof (rule for_each_preserves [where Q = "\<lambda>a. Q a \<and> R p a"])
    show "Q s1 \<and> R p s1" by (rule q1)
  next
    fix a q b
    assume a: "Q a \<and> R p a" and q: "q \<in> set ps" and b: "f a q = Some b"
    have "Q b" using Cons.prems(3) [of a q b] a q b by simp
    moreover have "R p b" using Cons.prems(4) [of a q b p] a q b by simp
    ultimately show "Q b \<and> R p b" by simp
  qed
  with rest show ?case by simp
qed


lemma cascade_step_unveils:
  assumes "allocated a" and "cascade_body m x y a p = Some b"
  shows "unveils a b"
proof -
  obtain i j where p: "p = (i, j)" by (cases p)
  show ?thesis
  proof (cases "in_grid a i j \<and> \<not> (i = x \<and> j = y)")
    case True
    then have "in_grid a i j" and "uncover_fuel m a i j = Some b" using assms(2) p by simp_all
    then show ?thesis using assms(1) by (intro uncover_fuel_unveils)
  next
    case False
    then have "b = a" using assms(2) p by (simp split: if_splits)
    then show ?thesis by (simp add: unveils_refl)
  qed
qed

lemma chord_step_unveils:
  assumes "allocated a" and "chord_body m x y a p = Some b"
  shows "unveils a b"
proof -
  obtain i j where p: "p = (i, j)" by (cases p)
  show ?thesis
  proof (cases "in_grid a i j \<and> \<not> (i = x \<and> j = y) \<and> state (cell_at a i j) = COVERED")
    case True
    then have "in_grid a i j" and "uncover_fuel m a i j = Some b" using assms(2) p by simp_all
    then show ?thesis using assms(1) by (intro uncover_fuel_unveils)
  next
    case False
    then have "b = a" using assms(2) p by (simp split: if_splits)
    then show ?thesis by (simp add: unveils_refl)
  qed
qed

lemma cascade_loop_unveils:
  assumes "allocated a" and "for_each (cascade_body m x y) a ps = Some b"
  shows "unveils a b"
  using assms(2) unveils_refl [of a]
proof (rule for_each_preserves)
  fix c and p :: "int \<times> int" and d
  assume c: "unveils a c" and d: "cascade_body m x y c p = Some d"
  have "allocated c" using c assms(1) by (rule unveils_allocated)
  then have "unveils c d" using d by (rule cascade_step_unveils)
  with c show "unveils a d" by (rule unveils_trans)
qed

lemma chord_loop_unveils:
  assumes "allocated a" and "for_each (chord_body m x y) a ps = Some b"
  shows "unveils a b"
  using assms(2) unveils_refl [of a]
proof (rule for_each_preserves)
  fix c and p :: "int \<times> int" and d
  assume c: "unveils a c" and d: "chord_body m x y c p = Some d"
  have "allocated c" using c assms(1) by (rule unveils_allocated)
  then have "unveils c d" using d by (rule chord_step_unveils)
  with c show "unveils a d" by (rule unveils_trans)
qed

lemma unveils_stays_uncovered:
  assumes "unveils g g'" and "in_grid g i j" and "allocated g"
    and "state (cell_at g i j) \<noteq> COVERED"
  shows "cell_at g' i j = cell_at g i j"
  using unveils_cell_at [OF assms(1,2,3)] assms(4) by (rule cell_unveils_not_covered)

lemma unveils_revealed:
  assumes "unveils g g'" and "in_grid g i j" and "allocated g"
    and "state (cell_at g i j) = COVERED" and "state (cell_at g' i j) \<noteq> COVERED"
  shows "cell_at g' i j =
           (cell_at g i j)\<lparr>state := (if is_mine (cell_at g i j) then EXPLODED else UNCOVERED)\<rparr>"
  using unveils_cell_at [OF assms(1,2,3)] assms(4,5) by (auto simp: cell_unveils_def)

lemma uncover_fuel_leaves_covered:
  assumes "in_grid g x y" and "allocated g" and "state (cell_at g x y) = COVERED"
    and "uncover_fuel n g x y = Some g'"
  shows "state (cell_at g' x y) \<noteq> COVERED"
  using assms(4)
proof (cases rule: uncover_fuel_cases)
  case (mine m)
  then show ?thesis using cell_at_set_state_same [OF assms(1,2)] by simp
next
  case (number m)
  then show ?thesis using cell_at_set_state_same [OF assms(1,2)] by simp
next
  case (zero m)
  let ?g1 = "set_state g x y UNCOVERED"
  have g1: "unveils g ?g1" using assms(1,2) zero(2,3) by (rule unveils_uncover)
  have a1: "allocated ?g1" using g1 assms(2) by (rule unveils_allocated)
  have i1: "in_grid ?g1 x y" using assms(1) by (simp add: unveils_in_grid [OF g1])
  have s1: "state (cell_at ?g1 x y) \<noteq> COVERED"
    using cell_at_set_state_same [OF assms(1,2)] by simp
  have "unveils ?g1 g'" using a1 zero(5) by (rule cascade_loop_unveils)
  then have "cell_at g' x y = cell_at ?g1 x y" using i1 a1 s1 by (rule unveils_stays_uncovered)
  then show ?thesis using s1 by simp
next
  case (chord m)
  then show ?thesis using assms(3) by simp
next
  case (other m)
  then show ?thesis using assms(3) by simp
qed

lemma chord_loop_reveals:
  assumes "allocated g" and "for_each (chord_body m x y) g (window x y) = Some g'"
    and "in_grid g i j" and "neighbor_of x y i j"
  shows "state (cell_at g' i j) \<noteq> COVERED"
proof -
  let ?R = "\<lambda>p a. in_grid g (fst p) (snd p) \<and> \<not> (fst p = x \<and> snd p = y)
                \<longrightarrow> state (cell_at a (fst p) (snd p)) \<noteq> COVERED"
  have "\<forall>p\<in>set (window x y). ?R p g'"
    using assms(2) unveils_refl [of g]
  proof (rule for_each_establishes [where Q = "unveils g" and R = ?R])
    fix a and p :: "int \<times> int" and b
    assume a: "unveils g a" and b: "chord_body m x y a p = Some b"
    have al: "allocated a" using a assms(1) by (rule unveils_allocated)
    have ab: "unveils a b" using al b by (rule chord_step_unveils)
    have "?R p b"
    proof (intro impI)
      assume h: "in_grid g (fst p) (snd p) \<and> \<not> (fst p = x \<and> snd p = y)"
      then have ig: "in_grid a (fst p) (snd p)" by (simp add: unveils_in_grid [OF a])
      show "state (cell_at b (fst p) (snd p)) \<noteq> COVERED"
      proof (cases "state (cell_at a (fst p) (snd p)) = COVERED")
        case True
        then have "uncover_fuel m a (fst p) (snd p) = Some b"
          using b h ig by (simp add: case_prod_beta)
        with ig al True show ?thesis by (rule uncover_fuel_leaves_covered)
      next
        case False
        then show ?thesis using unveils_stays_uncovered [OF ab ig al] by simp
      qed
    qed
    moreover have "unveils g b" using a ab by (rule unveils_trans)
    ultimately show "unveils g b \<and> ?R p b" by simp
  next
    fix a and p q :: "int \<times> int" and b
    assume a: "unveils g a" and b: "chord_body m x y a p = Some b" and r: "?R q a"
    have al: "allocated a" using a assms(1) by (rule unveils_allocated)
    have ab: "unveils a b" using al b by (rule chord_step_unveils)
    show "?R q b"
    proof (intro impI)
      assume h: "in_grid g (fst q) (snd q) \<and> \<not> (fst q = x \<and> snd q = y)"
      then have ig: "in_grid a (fst q) (snd q)" by (simp add: unveils_in_grid [OF a])
      have "state (cell_at a (fst q) (snd q)) \<noteq> COVERED" using r h by simp
      then show "state (cell_at b (fst q) (snd q)) \<noteq> COVERED"
        using unveils_stays_uncovered [OF ab ig al] by simp
    qed
  qed
  moreover have "(i, j) \<in> set (window x y)"
    using assms(4) by (simp add: set_window neighbor_of_def)
  ultimately have "?R (i, j) g'" by blast
  then show ?thesis using assms(3,4) by (simp add: neighbor_of_def)
qed

lemma uncover_Suc: "uncover g x y = uncover_fuel (Suc (2 * length (cells g) + 1)) g x y"
  by (simp add: uncover_def)

lemma uncover_unveils:
  "in_grid g x y \<Longrightarrow> allocated g \<Longrightarrow> uncover g x y = Some g' \<Longrightarrow> unveils g g'"
  unfolding uncover_def by (rule uncover_fuel_unveils)

text \<open>
  C3. Revealing an \<open>UNCOVERED\<close> cell: \<open>flags_remaining\<close> is the cell's \<open>neighbors\<close>
  less the number of flagged cells around it. When the two numbers differ the board is
  returned as it is. When they are equal, the call is the loop that calls \<open>uncover\<close>
  for every neighbour that is \<open>COVERED\<close> when the loop reaches it, and every neighbour
  that was \<open>COVERED\<close> before has been revealed after: \<open>EXPLODED\<close> if it is a mine,
  \<open>UNCOVERED\<close> if not.
\<close>

theorem chord_reveals_covered_neighbors:
  assumes "in_grid g x y" and "allocated g" and "state (cell_at g x y) = UNCOVERED"
  shows "flags_remaining g x y = neighbors (cell_at g x y) - int (flagged_neighbors g x y)
       \<and> (int (flagged_neighbors g x y) \<noteq> neighbors (cell_at g x y) \<longrightarrow> uncover g x y = Some g)
       \<and> (int (flagged_neighbors g x y) = neighbors (cell_at g x y) \<longrightarrow>
            (\<forall>n. uncover_fuel (Suc n) g x y = for_each (chord_body n x y) g (window x y))
            \<and> (\<exists>g'. uncover g x y = Some g' \<and> unveils g g'
                 \<and> (\<forall>i j. in_grid g i j \<and> neighbor_of x y i j \<and> state (cell_at g i j) = COVERED
                       \<longrightarrow> cell_at g' i j =
                             (cell_at g i j)\<lparr>state :=
                                (if is_mine (cell_at g i j) then EXPLODED else UNCOVERED)\<rparr>)))"
proof (intro conjI impI allI)
  show "flags_remaining g x y = neighbors (cell_at g x y) - int (flagged_neighbors g x y)"
    by (rule flags_remaining_eq)
next
  assume "int (flagged_neighbors g x y) \<noteq> neighbors (cell_at g x y)"
  then have "flags_remaining g x y \<noteq> 0" by (simp add: flags_remaining_eq)
  with assms(3) show "uncover g x y = Some g"
    unfolding uncover_Suc by (rule uncover_fuel_no_chord)
next
  fix n
  assume "int (flagged_neighbors g x y) = neighbors (cell_at g x y)"
  then have "flags_remaining g x y = 0" by (simp add: flags_remaining_eq)
  with assms(3) show "uncover_fuel (Suc n) g x y = for_each (chord_body n x y) g (window x y)"
    by (rule uncover_fuel_chord)
next
  assume "int (flagged_neighbors g x y) = neighbors (cell_at g x y)"
  then have z: "flags_remaining g x y = 0" by (simp add: flags_remaining_eq)
  obtain g' where g': "uncover g x y = Some g'"
    using uncover_returns [OF assms(1,2)] by blast
  have u: "unveils g g'" using assms(1,2) g' by (rule uncover_unveils)
  have "uncover_fuel (Suc (2 * length (cells g) + 1)) g x y = Some g'"
    using g' by (simp only: uncover_Suc)
  then have loop: "for_each (chord_body (2 * length (cells g) + 1) x y) g (window x y) = Some g'"
    by (simp only: uncover_fuel_chord [OF assms(3) z])
  have "cell_at g' i j =
          (cell_at g i j)\<lparr>state := (if is_mine (cell_at g i j) then EXPLODED else UNCOVERED)\<rparr>"
    if h: "in_grid g i j \<and> neighbor_of x y i j \<and> state (cell_at g i j) = COVERED" for i j
  proof -
    from h have h1: "in_grid g i j" and h2: "neighbor_of x y i j"
      and h3: "state (cell_at g i j) = COVERED" by simp_all
    have "state (cell_at g' i j) \<noteq> COVERED"
      using assms(2) loop h1 h2 by (rule chord_loop_reveals)
    with u h1 assms(2) h3 show ?thesis by (rule unveils_revealed)
  qed
  with g' u show "\<exists>g'. uncover g x y = Some g' \<and> unveils g g'
       \<and> (\<forall>i j. in_grid g i j \<and> neighbor_of x y i j \<and> state (cell_at g i j) = COVERED
             \<longrightarrow> cell_at g' i j =
                   (cell_at g i j)\<lparr>state :=
                      (if is_mine (cell_at g i j) then EXPLODED else UNCOVERED)\<rparr>)"
    by blast
qed


theorem chord_reveals_covered_neighbors_witness:
  "flags_remaining chord_example 1 1 = 0
   \<and> (\<exists>g'. uncover chord_example 1 1 = Some g' \<and> state (cell_at g' 2 2) = UNCOVERED)"
proof -
  have h1: "in_grid chord_example 1 1"
    by (simp add: in_grid_def chord_example_def board_def)
  have h2: "allocated chord_example"
    by (simp add: allocated_def chord_example_def board_def)
  have h3: "state (cell_at chord_example 1 1) = UNCOVERED"
    by (simp add: cell_at_def cell_index_def chord_example_def board_def mk_cell_def)
  have fr: "flags_remaining chord_example 1 1 = 0"
    by code_simp
  have c1: "in_grid chord_example 2 2"
    by (simp add: in_grid_def chord_example_def board_def)
  have c2: "neighbor_of 1 1 2 2"
    by (simp add: neighbor_of_def)
  have c3: "cell_at chord_example 2 2 = mk_cell False COVERED 0"
    by (simp add: cell_at_def cell_index_def chord_example_def board_def)
  note t = chord_reveals_covered_neighbors [OF h1 h2 h3]
  from t fr have "int (flagged_neighbors chord_example 1 1) = neighbors (cell_at chord_example 1 1)"
    by simp
  with t obtain g' where g': "uncover chord_example 1 1 = Some g'"
    and r: "\<forall>i j. in_grid chord_example i j \<and> neighbor_of 1 1 i j
                   \<and> state (cell_at chord_example i j) = COVERED
              \<longrightarrow> cell_at g' i j =
                    (cell_at chord_example i j)\<lparr>state :=
                       (if is_mine (cell_at chord_example i j) then EXPLODED else UNCOVERED)\<rparr>"
    by blast
  from r c1 c2 c3 have "state (cell_at g' 2 2) = UNCOVERED"
    by (simp add: mk_cell_def)
  with g' fr show ?thesis by blast
qed

section \<open>Mines are never uncovered\<close>

lemma flag_cells:
  "cells (flag g x y) ! k = cells g ! k
   \<or> (\<exists>s s'. (s = COVERED \<and> s' = FLAGGED \<or> s = FLAGGED \<and> s' = COVERED)
         \<and> state (cells g ! k) = s \<and> cells (flag g x y) ! k = (cells g ! k)\<lparr>state := s'\<rparr>)"
proof (cases "k = cell_index g x y \<and> k < length (cells g)")
  case True
  then show ?thesis
    by (cases "state (cell_at g x y)") (simp_all add: flag_def set_state_def cell_at_def)
next
  case False
  then have "cells (flag g x y) ! k = cells g ! k"
    by (auto simp: flag_def set_state_def list_update_beyond not_less)
  then show ?thesis by simp
qed

lemma flag_fields:
  "length (cells (flag g x y)) = length (cells g)"
  "width (flag g x y) = width g" "height (flag g x y) = height g"
  by (simp_all add: flag_def set_state_def)

lemma flag_allocated: "allocated g \<Longrightarrow> allocated (flag g x y)"
  by (simp add: allocated_def flag_fields)

lemma flag_mine_move:
  "is_mine (cells (flag g x y) ! k) = is_mine (cells g ! k)
   \<and> mine_move (state (cells g ! k)) (state (cells (flag g x y) ! k))"
  using flag_cells [of g x y k] by (auto simp: mine_move_def)

lemma unveils_mine_move:
  assumes "unveils g g'" and "k < length (cells g)" and "is_mine (cells g ! k)"
  shows "is_mine (cells g' ! k) \<and> mine_move (state (cells g ! k)) (state (cells g' ! k))"
  using unveils_nth [OF assms(1,2)] assms(3) by (auto simp: cell_unveils_def mine_move_def)

lemma unveils_no_mine_uncovered:
  assumes "unveils g g'" and "no_mine_uncovered g"
  shows "no_mine_uncovered g'"
proof -
  have "\<not> (is_mine (cells g' ! k) \<and> state (cells g' ! k) = UNCOVERED)"
    if "k < length (cells g')" for k
  proof -
    have k: "k < length (cells g)" using that unveils_fields(4) [OF assms(1)] by simp
    then have "\<not> (is_mine (cells g ! k) \<and> state (cells g ! k) = UNCOVERED)"
      using assms(2) by (simp add: no_mine_uncovered_def list_all_length)
    then show ?thesis
      using unveils_nth [OF assms(1) k] by (auto simp: cell_unveils_def split: if_splits)
  qed
  then show ?thesis by (simp add: no_mine_uncovered_def list_all_length)
qed

lemma flag_no_mine_uncovered:
  assumes "no_mine_uncovered g"
  shows "no_mine_uncovered (flag g x y)"
proof -
  have "\<not> (is_mine (cells (flag g x y) ! k) \<and> state (cells (flag g x y) ! k) = UNCOVERED)"
    if "k < length (cells (flag g x y))" for k
  proof -
    have "\<not> (is_mine (cells g ! k) \<and> state (cells g ! k) = UNCOVERED)"
      using that assms by (simp add: no_mine_uncovered_def list_all_length flag_fields)
    then show ?thesis using flag_cells [of g x y k] by auto
  qed
  then show ?thesis by (simp add: no_mine_uncovered_def list_all_length)
qed

lemma reachable_invariant: "reachable g \<Longrightarrow> allocated g \<and> no_mine_uncovered g"
proof (induction rule: reachable.induct)
  case (fresh g)
  then show ?case by (simp add: no_mine_uncovered_def list_all_length)
next
  case (reveal g x y g')
  then have u: "unveils g g'" by (intro uncover_unveils [of g x y]) simp_all
  show ?case
    using reveal.IH unveils_allocated [OF u] unveils_no_mine_uncovered [OF u] by simp
next
  case (toggle g x y)
  then show ?case by (simp add: flag_allocated flag_no_mine_uncovered)
qed

text \<open>
  C10. On every board of a game no mine is \<open>UNCOVERED\<close>, and one more \<open>uncover\<close> or
  \<open>flag\<close> at a cell of the grid moves the state of a mine only between \<open>COVERED\<close> and
  \<open>FLAGGED\<close> or from \<open>COVERED\<close> to \<open>EXPLODED\<close>, and leaves it a mine.
\<close>

theorem mines_never_uncovered:
  assumes "reachable g"
  shows "(\<forall>k<length (cells g). \<not> (is_mine (cells g ! k) \<and> state (cells g ! k) = UNCOVERED))
       \<and> (\<forall>x y g'. in_grid g x y \<and> (uncover g x y = Some g' \<or> g' = flag g x y) \<longrightarrow>
            (\<forall>k<length (cells g). is_mine (cells g ! k) \<longrightarrow>
               is_mine (cells g' ! k) \<and> mine_move (state (cells g ! k)) (state (cells g' ! k))))"
proof -
  have al: "allocated g" using reachable_invariant [OF assms] by simp
  have 1: "\<forall>k<length (cells g). \<not> (is_mine (cells g ! k) \<and> state (cells g ! k) = UNCOVERED)"
    using reachable_invariant [OF assms] by (simp add: no_mine_uncovered_def list_all_length)
  have 2: "is_mine (cells g' ! k) \<and> mine_move (state (cells g ! k)) (state (cells g' ! k))"
    if h: "in_grid g x y \<and> (uncover g x y = Some g' \<or> g' = flag g x y)"
      and k: "k < length (cells g)" and m: "is_mine (cells g ! k)" for x y g' k
  proof (cases "g' = flag g x y")
    case True
    then show ?thesis using flag_mine_move [of g x y k] m by simp
  next
    case False
    then have "in_grid g x y" and "uncover g x y = Some g'" using h by simp_all
    then have "unveils g g'" using al by (intro uncover_unveils [of g x y]) simp_all
    then show ?thesis using k m by (rule unveils_mine_move)
  qed
  from 1 2 show ?thesis by blast
qed

theorem mines_never_uncovered_witness:
  "map state (cells (flag reach_example 1 0)) = [COVERED, FLAGGED]
   \<and> reachable (flag reach_example 1 0)
   \<and> \<not> (is_mine (cells (flag reach_example 1 0) ! 1)
          \<and> state (cells (flag reach_example 1 0) ! 1) = UNCOVERED)"
proof -
  have a: "allocated reach_example"
    by (simp add: allocated_def reach_example_def board_def)
  have c: "list_all (\<lambda>c. state c = COVERED) (cells reach_example)"
    by (simp add: reach_example_def board_def mk_cell_def)
  have i: "in_grid reach_example 1 0"
    by (simp add: in_grid_def reach_example_def board_def)
  have r: "reachable (flag reach_example 1 0)"
    using a c i by (intro reachable.toggle reachable.fresh)
  have s: "map state (cells (flag reach_example 1 0)) = [COVERED, FLAGGED]"
    by (simp add: flag_def set_state_def cell_at_def cell_index_def reach_example_def
        board_def mk_cell_def)
  have "length (cells (flag reach_example 1 0)) = 2"
    by (simp add: flag_fields reach_example_def board_def)
  with mines_never_uncovered [OF r] r s show ?thesis by simp
qed

section \<open>Termination of \<open>uncover\<close> and its writes\<close>

lemma for_each_logged_fst:
  assumes "\<And>a p. map_option fst (f a p) = f0 a p"
  shows "map_option fst (for_each (logged f) (a, w) ps) = for_each f0 a ps"
proof (induction ps arbitrary: a w)
  case Nil
  then show ?case by simp
next
  case (Cons p ps)
  show ?case
  proof (cases "f a p")
    case None
    then have "f0 a p = None" using assms [of a p] by simp
    with None show ?thesis by (simp add: logged_def)
  next
    case (Some r)
    obtain b w' where r: "r = (b, w')" by (cases r)
    have "f0 a p = Some b" using assms [of a p] Some r by simp
    with Some r Cons.IH [of b "w @ w'"] show ?thesis by (simp add: logged_def)
  qed
qed

lemma uncover_log_mine:
  "state (cell_at g x y) = COVERED \<Longrightarrow> is_mine (cell_at g x y) \<Longrightarrow>
   uncover_log (Suc n) g x y = Some (set_state g x y EXPLODED, [(x, y)])"
  by (simp add: uncover_log.simps)

lemma uncover_log_number:
  "state (cell_at g x y) = COVERED \<Longrightarrow> \<not> is_mine (cell_at g x y) \<Longrightarrow>
   neighbors (cell_at (set_state g x y UNCOVERED) x y) \<noteq> 0 \<Longrightarrow>
   uncover_log (Suc n) g x y = Some (set_state g x y UNCOVERED, [(x, y)])"
  by (simp add: uncover_log.simps)

lemma uncover_log_zero:
  "state (cell_at g x y) = COVERED \<Longrightarrow> \<not> is_mine (cell_at g x y) \<Longrightarrow>
   neighbors (cell_at (set_state g x y UNCOVERED) x y) = 0 \<Longrightarrow>
   uncover_log (Suc n) g x y =
     for_each (logged (cascade_log_body n x y)) (set_state g x y UNCOVERED, [(x, y)]) (window x y)"
  by (simp add: uncover_log.simps)

lemma uncover_log_chord:
  "state (cell_at g x y) = UNCOVERED \<Longrightarrow> flags_remaining g x y = 0 \<Longrightarrow>
   uncover_log (Suc n) g x y = for_each (logged (chord_log_body n x y)) (g, []) (window x y)"
  by (simp add: uncover_log.simps)

lemma uncover_log_no_chord:
  "state (cell_at g x y) = UNCOVERED \<Longrightarrow> flags_remaining g x y \<noteq> 0 \<Longrightarrow>
   uncover_log (Suc n) g x y = Some (g, [])"
  by (simp add: uncover_log.simps)

lemma uncover_log_other:
  "state (cell_at g x y) \<noteq> COVERED \<Longrightarrow> state (cell_at g x y) \<noteq> UNCOVERED \<Longrightarrow>
   uncover_log (Suc n) g x y = Some (g, [])"
  by (simp add: uncover_log.simps)

lemma uncover_log_fst: "map_option fst (uncover_log n g x y) = uncover_fuel n g x y"
proof (induction n arbitrary: g x y)
  case 0
  then show ?case by (simp add: uncover_log.simps uncover_fuel.simps)
next
  case (Suc n)
  have 1: "map_option fst (for_each (logged (cascade_log_body n x y)) (a, w) ps)
           = for_each (cascade_body n x y) a ps" for a w ps
    by (rule for_each_logged_fst) (simp add: Suc.IH split: prod.splits)
  have 2: "map_option fst (for_each (logged (chord_log_body n x y)) (a, w) ps)
           = for_each (chord_body n x y) a ps" for a w ps
    by (rule for_each_logged_fst) (simp add: Suc.IH split: prod.splits)
  show ?case
  proof (cases "state (cell_at g x y) = COVERED")
    case True
    note cov = True
    show ?thesis
    proof (cases "is_mine (cell_at g x y)")
      case True
      show ?thesis
        by (simp only: uncover_log_mine [OF cov True] uncover_fuel_mine [OF cov True])
           simp
    next
      case False
      note nm = False
      show ?thesis
      proof (cases "neighbors (cell_at (set_state g x y UNCOVERED) x y) = 0")
        case True
        show ?thesis
          by (simp only: uncover_log_zero [OF cov nm True] uncover_fuel_zero [OF cov nm True] 1)
      next
        case False
        show ?thesis
          by (simp only: uncover_log_number [OF cov nm False] uncover_fuel_number [OF cov nm False])
             simp
      qed
    qed
  next
    case False
    note ncov = False
    show ?thesis
    proof (cases "state (cell_at g x y) = UNCOVERED")
      case True
      note unc = True
      show ?thesis
      proof (cases "flags_remaining g x y = 0")
        case True
        show ?thesis
          by (simp only: uncover_log_chord [OF unc True] uncover_fuel_chord [OF unc True] 2)
      next
        case False
        show ?thesis
          by (simp only: uncover_log_no_chord [OF unc False] uncover_fuel_no_chord [OF unc False])
             simp
      qed
    next
      case False
      show ?thesis
        by (simp only: uncover_log_other [OF ncov False] uncover_fuel_other [OF ncov False])
           simp
    qed
  qed
qed


lemma logs_unveils: "logs g (a, w) \<Longrightarrow> unveils g a"
  by (simp add: logs_def)

lemma logs_distinct: "logs g (a, w) \<Longrightarrow> distinct w"
  by (simp add: logs_def)

lemma logs_mem:
  assumes "logs g (a, w)" and "(i, j) \<in> set w"
  shows "in_grid g i j \<and> state (cell_at g i j) = COVERED \<and> state (cell_at a i j) \<noteq> COVERED"
proof -
  have "\<forall>p\<in>set w. case p of (i, j) \<Rightarrow>
          in_grid g i j \<and> state (cell_at g i j) = COVERED \<and> state (cell_at a i j) \<noteq> COVERED"
    using assms(1) by (simp add: logs_def)
  from bspec [OF this assms(2)] show ?thesis by simp
qed

lemma logs_changed:
  assumes "logs g (a, w)" and "in_grid g i j" and "cell_at a i j \<noteq> cell_at g i j"
  shows "(i, j) \<in> set w"
proof -
  have "\<forall>i j. in_grid g i j \<and> cell_at a i j \<noteq> cell_at g i j \<longrightarrow> (i, j) \<in> set w"
    using assms(1) by (simp add: logs_def)
  then show ?thesis using assms(2,3) by blast
qed

lemma logsI:
  assumes "unveils g a" and "distinct w"
    and "\<And>i j. (i, j) \<in> set w \<Longrightarrow>
           in_grid g i j \<and> state (cell_at g i j) = COVERED \<and> state (cell_at a i j) \<noteq> COVERED"
    and "\<And>i j. in_grid g i j \<Longrightarrow> cell_at a i j \<noteq> cell_at g i j \<Longrightarrow> (i, j) \<in> set w"
  shows "logs g (a, w)"
  unfolding logs_def fst_conv snd_conv
proof (intro conjI ballI allI impI)
  show "unveils g a" by (rule assms(1))
  show "distinct w" by (rule assms(2))
  show "case p of (i, j) \<Rightarrow>
          in_grid g i j \<and> state (cell_at g i j) = COVERED \<and> state (cell_at a i j) \<noteq> COVERED"
    if "p \<in> set w" for p
    using assms(3) [of "fst p" "snd p"] that by (simp add: case_prod_beta)
  show "(i, j) \<in> set w" if "in_grid g i j \<and> cell_at a i j \<noteq> cell_at g i j" for i j
    using assms(4) [of i j] that by simp
qed

lemma logs_refl: "logs g (g, [])"
  by (rule logsI) (simp_all add: unveils_refl)

lemma set_state_other:
  assumes "in_grid g x y" and "in_grid g i j" and "(i, j) \<noteq> (x, y)"
  shows "cell_at (set_state g x y s) i j = cell_at g i j"
proof -
  have "cell_index g i j \<noteq> cell_index g x y"
    using cell_index_inj [OF assms(2,1)] assms(3) by auto
  then show ?thesis
    by (simp add: cell_at_def set_state_def cell_index_def)
qed

lemma logs_single:
  assumes "in_grid g x y" and "allocated g" and "state (cell_at g x y) = COVERED"
    and "s = (if is_mine (cell_at g x y) then EXPLODED else UNCOVERED)"
  shows "logs g (set_state g x y s, [(x, y)])"
proof (rule logsI)
  show "unveils g (set_state g x y s)" using assms by (rule unveils_set_state)
  show "distinct [(x, y)]" by simp
  have c: "state (cell_at (set_state g x y s) x y) \<noteq> COVERED"
    using cell_at_set_state_same [OF assms(1,2), of s] assms(4) by simp
  show "in_grid g i j \<and> state (cell_at g i j) = COVERED
        \<and> state (cell_at (set_state g x y s) i j) \<noteq> COVERED"
    if "(i, j) \<in> set [(x, y)]" for i j
    using that c assms(1,3) by simp
  show "(i, j) \<in> set [(x, y)]"
    if "in_grid g i j" and "cell_at (set_state g x y s) i j \<noteq> cell_at g i j" for i j
    using set_state_other [OF assms(1) that(1), of s] that(2) by auto
qed

lemma logs_append:
  assumes al: "allocated g" and 1: "logs g (a, w)" and 2: "logs a (b, w')"
  shows "logs g (b, w @ w')"
proof -
  have ga: "unveils g a" using 1 by (rule logs_unveils)
  have ab: "unveils a b" using 2 by (rule logs_unveils)
  have ala: "allocated a" using ga al by (rule unveils_allocated)
  have gb: "unveils g b" using ga ab by (rule unveils_trans)
  note w = logs_mem [OF 1] and w' = logs_mem [OF 2]
  have disj: "set w \<inter> set w' = {}"
  proof -
    have False if "p \<in> set w" and "p \<in> set w'" for p
      using w [of "fst p" "snd p"] w' [of "fst p" "snd p"] that by simp
    then show ?thesis by blast
  qed
  have d: "distinct (w @ w')"
    using logs_distinct [OF 1] logs_distinct [OF 2] disj by simp
  have in_w: "in_grid g i j \<and> state (cell_at g i j) = COVERED \<and> state (cell_at b i j) \<noteq> COVERED"
    if m: "(i, j) \<in> set w" for i j
  proof -
    have ig: "in_grid a i j" using w [OF m] by (simp add: unveils_in_grid [OF ga])
    have nc: "state (cell_at a i j) \<noteq> COVERED" using w [OF m] by simp
    have "cell_at b i j = cell_at a i j"
      using ab ig ala nc by (rule unveils_stays_uncovered)
    then show ?thesis using w [OF m] by simp
  qed
  have in_w': "in_grid g i j \<and> state (cell_at g i j) = COVERED \<and> state (cell_at b i j) \<noteq> COVERED"
    if m: "(i, j) \<in> set w'" for i j
  proof -
    have ig: "in_grid g i j" using w' [OF m] by (simp add: unveils_in_grid [OF ga])
    have c: "state (cell_at a i j) = COVERED" using w' [OF m] by simp
    have "cell_unveils (cell_at g i j) (cell_at a i j)" using ga ig al by (rule unveils_cell_at)
    then have "state (cell_at g i j) = COVERED" using c by (rule cell_unveils_covered)
    then show ?thesis using ig w' [OF m] by simp
  qed
  show ?thesis
  proof (rule logsI [OF gb d])
    fix i j assume "(i, j) \<in> set (w @ w')"
    then have "(i, j) \<in> set w \<or> (i, j) \<in> set w'" by simp
    then show "in_grid g i j \<and> state (cell_at g i j) = COVERED \<and> state (cell_at b i j) \<noteq> COVERED"
      using in_w [of i j] in_w' [of i j] by blast
  next
    fix i j assume ig: "in_grid g i j" and ne: "cell_at b i j \<noteq> cell_at g i j"
    show "(i, j) \<in> set (w @ w')"
    proof (cases "cell_at a i j = cell_at g i j")
      case True
      then have "cell_at b i j \<noteq> cell_at a i j" using ne by simp
      moreover have "in_grid a i j" using ig by (simp add: unveils_in_grid [OF ga])
      ultimately have "(i, j) \<in> set w'" using 2 by (intro logs_changed [of a b w']) simp_all
      then show ?thesis by simp
    next
      case False
      then have "(i, j) \<in> set w" using 1 ig by (intro logs_changed [of g a w]) simp_all
      then show ?thesis by simp
    qed
  qed
qed

lemma logged_step_logs:
  assumes al: "allocated g" and q: "logs g r" and b: "logged f r p = Some r'"
    and f: "\<And>a c. allocated a \<Longrightarrow> f a p = Some c \<Longrightarrow> logs a c"
  shows "logs g r'"
proof -
  obtain a w where r: "r = (a, w)" by (cases r)
  from b r obtain c w' where c: "f a p = Some (c, w')" and r': "r' = (c, w @ w')"
    by (auto simp: logged_def)
  have "unveils g a" using q r by (simp add: logs_unveils)
  then have "allocated a" using al by (rule unveils_allocated)
  then have "logs a (c, w')" using c by (rule f)
  with al q r show ?thesis unfolding r' by (intro logs_append [of g a w c w']) simp_all
qed

lemma uncover_log_logs:
  "in_grid g x y \<Longrightarrow> allocated g \<Longrightarrow> uncover_log n g x y = Some r \<Longrightarrow> logs g r"
proof (induction n arbitrary: g x y r)
  case 0
  then show ?case by (simp add: uncover_log.simps)
next
  case (Suc n)
  note IH = Suc.IH
  have casc: "logs a c" if "allocated a" and "cascade_log_body n x y a p = Some c" for a p c
  proof -
    obtain i j where p: "p = (i, j)" by (cases p)
    show ?thesis
    proof (cases "in_grid a i j \<and> \<not> (i = x \<and> j = y)")
      case True
      then have "in_grid a i j" and "uncover_log n a i j = Some c" using that(2) p by simp_all
      then show ?thesis using that(1) by (intro IH)
    next
      case False
      then have "c = (a, [])" using that(2) p by (simp split: if_splits)
      then show ?thesis by (simp add: logs_refl)
    qed
  qed
  have chrd: "logs a c" if "allocated a" and "chord_log_body n x y a p = Some c" for a p c
  proof -
    obtain i j where p: "p = (i, j)" by (cases p)
    show ?thesis
    proof (cases "in_grid a i j \<and> \<not> (i = x \<and> j = y) \<and> state (cell_at a i j) = COVERED")
      case True
      then have "in_grid a i j" and "uncover_log n a i j = Some c" using that(2) p by simp_all
      then show ?thesis using that(1) by (intro IH)
    next
      case False
      then have "c = (a, [])" using that(2) p by (simp split: if_splits)
      then show ?thesis by (simp add: logs_refl)
    qed
  qed
  show ?case
  proof (cases "state (cell_at g x y) = COVERED")
    case True
    note cov = True
    show ?thesis
    proof (cases "is_mine (cell_at g x y)")
      case True
      then have "r = (set_state g x y EXPLODED, [(x, y)])"
        using Suc.prems(3) uncover_log_mine [OF cov True, of n] by simp
      then show ?thesis using logs_single [OF Suc.prems(1,2) cov] True by simp
    next
      case False
      note nm = False
      have g1: "logs g (set_state g x y UNCOVERED, [(x, y)])"
        using logs_single [OF Suc.prems(1,2) cov, of UNCOVERED] nm by simp
      show ?thesis
      proof (cases "neighbors (cell_at (set_state g x y UNCOVERED) x y) = 0")
        case True
        have "for_each (logged (cascade_log_body n x y)) (set_state g x y UNCOVERED, [(x, y)])
                (window x y) = Some r"
          using Suc.prems(3) by (simp only: uncover_log_zero [OF cov nm True])
        then show ?thesis
          using g1
        proof (rule for_each_preserves)
          fix a and p :: "int \<times> int" and b
          assume "logs g a" and "logged (cascade_log_body n x y) a p = Some b"
          with Suc.prems(2) show "logs g b"
            by (rule logged_step_logs) (rule casc)
        qed
      next
        case False
        then have "r = (set_state g x y UNCOVERED, [(x, y)])"
          using Suc.prems(3) uncover_log_number [OF cov nm False, of n] by simp
        then show ?thesis using g1 by simp
      qed
    qed
  next
    case False
    note ncov = False
    show ?thesis
    proof (cases "state (cell_at g x y) = UNCOVERED \<and> flags_remaining g x y = 0")
      case True
      then have "for_each (logged (chord_log_body n x y)) (g, []) (window x y) = Some r"
        using Suc.prems(3) uncover_log_chord [of g x y n] by simp
      then show ?thesis
        using logs_refl [of g]
      proof (rule for_each_preserves)
        fix a and p :: "int \<times> int" and b
        assume "logs g a" and "logged (chord_log_body n x y) a p = Some b"
        with Suc.prems(2) show "logs g b"
          by (rule logged_step_logs) (rule chrd)
      qed
    next
      case False
      then have "uncover_log (Suc n) g x y = Some (g, [])"
        using ncov uncover_log_no_chord [of g x y n] uncover_log_other [of g x y n] by blast
      then have "r = (g, [])" using Suc.prems(3) by simp
      then show ?thesis by (simp add: logs_refl)
    qed
  qed
qed

lemma logs_length:
  assumes "allocated g" and "logs g (g', ws)"
  shows "length ws \<le> covered_count g"
proof -
  let ?f = "\<lambda>p. cell_index g (fst p) (snd p)"
  have w: "in_grid g (fst p) (snd p) \<and> state (cell_at g (fst p) (snd p)) = COVERED"
    if "p \<in> set ws" for p
    using logs_mem [OF assms(2), of "fst p" "snd p"] that by simp
  have inj: "inj_on ?f (set ws)"
  proof (rule inj_onI)
    fix p q assume "p \<in> set ws" "q \<in> set ws" "?f p = ?f q"
    then show "p = q"
      using cell_index_inj [of g "fst p" "snd p" "fst q" "snd q"] w [of p] w [of q]
      by (simp add: prod_eq_iff)
  qed
  have sub: "?f ` set ws \<subseteq> {k. k < length (cells g) \<and> state (cells g ! k) = COVERED}"
  proof
    fix k assume "k \<in> ?f ` set ws"
    then obtain p where p: "p \<in> set ws" "k = ?f p" by blast
    have "k < length (cells g)" using p(2) w [OF p(1)] assms(1) by (simp add: cell_index_less)
    moreover have "state (cells g ! k) = COVERED" using p(2) w [OF p(1)] by (simp add: cell_at_def)
    ultimately show "k \<in> {k. k < length (cells g) \<and> state (cells g ! k) = COVERED}" by simp
  qed
  have "length ws = card (set ws)" using logs_distinct [OF assms(2)] by (simp add: distinct_card)
  also have "\<dots> = card (?f ` set ws)" using inj by (simp add: card_image)
  also have "\<dots> \<le> covered_count g"
    unfolding covered_count_def using sub by (intro card_mono) simp_all
  finally show ?thesis .
qed

text \<open>
  C7. \<open>uncover\<close> at a cell of the grid returns: a recursion depth of twice the number
  of cells, plus two, is enough on every board. It writes to no cell twice: every
  write is to a cell that was \<open>COVERED\<close> when the action began and is not
  \<open>COVERED\<close> when it ends, so there are at most as many writes as covered cells, and
  the cells written are the cells that changed. Every call that finds its cell
  \<open>COVERED\<close> writes it before anything else, and the zero cascade is in that branch
  only: it runs at most once for a cell. A call that comes back to the cell finds it
  \<open>UNCOVERED\<close> or \<open>EXPLODED\<close> and takes the other branch.
\<close>

theorem uncover_terminates_writes_once:
  assumes "in_grid g x y" and "allocated g"
  shows "\<exists>g' ws. uncover g x y = Some g'
           \<and> uncover_log (2 * length (cells g) + 2) g x y = Some (g', ws)
           \<and> unveils g g' \<and> distinct ws \<and> length ws \<le> covered_count g
           \<and> (\<forall>(i, j)\<in>set ws. in_grid g i j \<and> state (cell_at g i j) = COVERED
                  \<and> state (cell_at g' i j) \<noteq> COVERED)
           \<and> (\<forall>i j. in_grid g i j \<and> cell_at g' i j \<noteq> cell_at g i j \<longrightarrow> (i, j) \<in> set ws)"
proof -
  obtain g' where g': "uncover g x y = Some g'"
    using uncover_returns [OF assms] by blast
  then have "map_option fst (uncover_log (2 * length (cells g) + 2) g x y) = Some g'"
    by (simp only: uncover_log_fst uncover_def)
  then obtain ws where ws: "uncover_log (2 * length (cells g) + 2) g x y = Some (g', ws)"
    by auto
  have l: "logs g (g', ws)" using assms ws by (rule uncover_log_logs)
  have n: "length ws \<le> covered_count g" using assms(2) l by (rule logs_length)
  have u: "unveils g g'" using l by (rule logs_unveils)
  have d: "distinct ws" using l by (rule logs_distinct)
  have m: "\<forall>(i, j)\<in>set ws. in_grid g i j \<and> state (cell_at g i j) = COVERED
                  \<and> state (cell_at g' i j) \<noteq> COVERED"
  proof (intro ballI)
    fix p assume "p \<in> set ws"
    then show "case p of (i, j) \<Rightarrow> in_grid g i j \<and> state (cell_at g i j) = COVERED
                  \<and> state (cell_at g' i j) \<noteq> COVERED"
      using logs_mem [OF l, of "fst p" "snd p"] by (simp add: case_prod_beta)
  qed
  have c: "\<forall>i j. in_grid g i j \<and> cell_at g' i j \<noteq> cell_at g i j \<longrightarrow> (i, j) \<in> set ws"
    using logs_changed [OF l] by blast
  show ?thesis
    by (intro exI [of _ g'] exI [of _ ws] conjI g' ws u d n m c)
qed


theorem uncover_terminates_writes_once_witness:
  "\<exists>g'. uncover chord_example 2 2 = Some g'
      \<and> uncover_log 20 chord_example 2 2 =
          Some (g', [(2, 2), (1, 0), (2, 0), (0, 1), (2, 1), (0, 2), (1, 2)])"
proof -
  have h1: "in_grid chord_example 2 2"
    by (simp add: in_grid_def chord_example_def board_def)
  have h2: "allocated chord_example"
    by (simp add: allocated_def chord_example_def board_def)
  have len: "2 * length (cells chord_example) + 2 = 20"
    by (simp add: chord_example_def board_def)
  have e: "map_option snd (uncover_log 20 chord_example 2 2) =
             Some [(2, 2), (1, 0), (2, 0), (0, 1), (2, 1), (0, 2), (1, 2)]"
    by code_simp
  from uncover_terminates_writes_once [OF h1 h2] obtain g' ws
    where "uncover chord_example 2 2 = Some g'"
      and "uncover_log (2 * length (cells chord_example) + 2) chord_example 2 2 = Some (g', ws)"
    by blast
  with e len show ?thesis by simp
qed

section \<open>Counting the neighbouring mines\<close>

lemma num_neighbors_eq: "num_neighbors g x y = int (mines_around g x y)"
proof -
  have "num_neighbors g x y =
          fold (\<lambda>p n. if (case p of (i, j) \<Rightarrow>
                  in_grid g i j \<and> \<not> (i = x \<and> j = y) \<and> is_mine (cell_at g i j))
                then n + 1 else n)
               (window x y) 0"
    unfolding num_neighbors_def by (rule arg_cong [where f = "\<lambda>f. fold f _ _"]) auto
  then show ?thesis
    by (simp only: fold_count_up window_filter_card mines_around_def add_0)
qed

lemma length_filter_mono:
  "(\<And>x. x \<in> set xs \<Longrightarrow> P x \<Longrightarrow> Q x) \<Longrightarrow> length (filter P xs) \<le> length (filter Q xs)"
  by (induction xs) auto

lemma mines_around_le: "mines_around g x y \<le> 8"
proof -
  have "mines_around g x y =
          length (filter (\<lambda>(i, j). in_grid g i j \<and> \<not> (i = x \<and> j = y) \<and> is_mine (cell_at g i j))
                    (window x y))"
    by (simp only: window_filter_card mines_around_def)
  also have "\<dots> \<le> length (filter (\<lambda>p. p \<noteq> (x, y)) (window x y))"
    by (rule length_filter_mono) auto
  also have "\<dots> = 8" by (simp add: window_unfold)
  finally show ?thesis .
qed

lemma recounts_refl: "recounts g g"
  by (simp add: recounts_def)

lemma recounts_trans: "recounts a b \<Longrightarrow> recounts b c \<Longrightarrow> recounts a c"
  by (simp add: recounts_def)

lemma recounts_fields:
  assumes "recounts g g'"
  shows "width g' = width g" "height g' = height g" "length (cells g') = length (cells g)"
proof -
  have e: "g'\<lparr>cells := []\<rparr> = g\<lparr>cells := []\<rparr>" using assms by (simp add: recounts_def)
  show "width g' = width g" using arg_cong [OF e, of width] by simp
  show "height g' = height g" using arg_cong [OF e, of height] by simp
  show "length (cells g') = length (cells g)" using assms by (simp add: recounts_def)
qed

lemma recounts_in_grid: "recounts g g' \<Longrightarrow> in_grid g' i j = in_grid g i j"
  by (simp add: in_grid_def recounts_fields)

lemma recounts_allocated: "recounts g g' \<Longrightarrow> allocated g \<Longrightarrow> allocated g'"
  by (simp add: allocated_def recounts_fields)

lemma recounts_cell_at:
  assumes "recounts g g'" and "in_grid g i j" and "allocated g"
  shows "is_mine (cell_at g' i j) = is_mine (cell_at g i j)"
    and "state (cell_at g' i j) = state (cell_at g i j)"
proof -
  have k: "cell_index g i j < length (cells g)" using assms(2,3) by (rule cell_index_less)
  have e: "cell_index g' i j = cell_index g i j"
    by (simp add: cell_index_def recounts_fields [OF assms(1)])
  show "is_mine (cell_at g' i j) = is_mine (cell_at g i j)"
    using assms(1) k by (simp add: cell_at_def e recounts_def)
  show "state (cell_at g' i j) = state (cell_at g i j)"
    using assms(1) k by (simp add: cell_at_def e recounts_def)
qed

lemma recounts_mines_around:
  assumes "recounts g g'" and "allocated g"
  shows "mines_around g' x y = mines_around g x y"
proof -
  have "{(i, j). in_grid g' i j \<and> neighbor_of x y i j \<and> is_mine (cell_at g' i j)}
        = {(i, j). in_grid g i j \<and> neighbor_of x y i j \<and> is_mine (cell_at g i j)}"
    using recounts_in_grid [OF assms(1)] recounts_cell_at(1) [OF assms(1) _ assms(2)]
    by auto
  then show ?thesis by (simp add: mines_around_def)
qed

lemma set_neighbors_recounts:
  "recounts g (set_neighbors g x y n)"
proof -
  have "is_mine ((cells g)[cell_index g x y := (cell_at g x y)\<lparr>neighbors := n\<rparr>] ! k)
          = is_mine (cells g ! k)
        \<and> state ((cells g)[cell_index g x y := (cell_at g x y)\<lparr>neighbors := n\<rparr>] ! k)
          = state (cells g ! k)"
    if "k < length (cells g)" for k
    using that by (cases "k = cell_index g x y") (simp_all add: cell_at_def)
  then show ?thesis by (simp add: recounts_def set_neighbors_def)
qed

lemma set_neighbors_same:
  "in_grid g x y \<Longrightarrow> allocated g \<Longrightarrow> neighbors (cell_at (set_neighbors g x y n) x y) = n"
  using cell_index_less [of g x y]
  by (simp add: set_neighbors_def cell_at_def cell_index_def)

lemma set_neighbors_other:
  assumes "in_grid g x y" and "in_grid g i j" and "(i, j) \<noteq> (x, y)"
  shows "cell_at (set_neighbors g x y n) i j = cell_at g i j"
proof -
  have "cell_index g i j \<noteq> cell_index g x y"
    using cell_index_inj [OF assms(2,1)] assms(3) by auto
  then show ?thesis
    by (simp add: cell_at_def set_neighbors_def cell_index_def)
qed


lemma recounts_num_neighbors:
  "recounts g g' \<Longrightarrow> allocated g \<Longrightarrow> num_neighbors g' x y = num_neighbors g x y"
  by (simp add: num_neighbors_eq recounts_mines_around)

lemma count_cell_recounts: "recounts g (count_cell p g)"
  by (cases p) (simp add: count_cell_def set_neighbors_recounts)

lemma fold_count_cell_width: "width (fold count_cell ps a) = width a"
proof (induction ps arbitrary: a)
  case Nil
  then show ?case by simp
next
  case (Cons p ps)
  then show ?case using recounts_fields(1) [OF count_cell_recounts [of a p]] by simp
qed

lemma calculate_rows_flat:
  "width a = w \<Longrightarrow>
   fold (\<lambda>y g1. fold (\<lambda>x g2. set_neighbors g2 x y (num_neighbors g2 x y))
                       [0..width g1 - 1] g1) ys a
   = fold count_cell (concat (map (\<lambda>y. map (\<lambda>x. (x, y)) [0..w - 1]) ys)) a"
proof (induction ys arbitrary: a)
  case Nil
  then show ?case by simp
next
  case (Cons y ys)
  let ?row = "map (\<lambda>x. (x, y)) [0..w - 1]"
  have row: "fold (\<lambda>x g2. set_neighbors g2 x y (num_neighbors g2 x y)) [0..width a - 1] a
             = fold count_cell ?row a"
    using Cons.prems by (simp add: fold_map comp_def count_cell_def)
  have "width (fold count_cell ?row a) = w"
    using Cons.prems by (simp only: fold_count_cell_width)
  from Cons.IH [OF this] show ?case
    by (simp add: row)
qed

lemma calculate_neighbors_flat:
  "calculate_neighbors g = fold count_cell (grid_coords g) g"
  unfolding calculate_neighbors_def grid_coords_def
  by (rule calculate_rows_flat) simp

lemma fold_count_cell:
  assumes "allocated g" and "recounts g a" and "\<forall>p\<in>set ps. in_grid g (fst p) (snd p)"
  shows "recounts g (fold count_cell ps a)
       \<and> (\<forall>p\<in>set ps. neighbors (cell_at (fold count_cell ps a) (fst p) (snd p))
                         = num_neighbors g (fst p) (snd p))
       \<and> (\<forall>x y. in_grid g x y \<and> (x, y) \<notin> set ps \<longrightarrow>
              cell_at (fold count_cell ps a) x y = cell_at a x y)"
  using assms(2,3)
proof (induction ps arbitrary: a)
  case Nil
  then show ?case by simp
next
  case (Cons p ps)
  obtain x y where p: "p = (x, y)" by (cases p)
  let ?a1 = "count_cell p a"
  let ?a' = "fold count_cell ps ?a1"
  have ig: "in_grid g x y" using Cons.prems(2) p by simp
  have iga: "in_grid a x y" using ig by (simp add: recounts_in_grid [OF Cons.prems(1)])
  have ala: "allocated a" using Cons.prems(1) assms(1) by (rule recounts_allocated)
  have r1: "recounts g ?a1"
    using Cons.prems(1) count_cell_recounts by (rule recounts_trans)
  have rest: "\<forall>q\<in>set ps. in_grid g (fst q) (snd q)" using Cons.prems(2) by simp
  note IH = Cons.IH [OF r1 rest]
  have n1: "neighbors (cell_at ?a1 x y) = num_neighbors g x y"
    using set_neighbors_same [OF iga ala] recounts_num_neighbors [OF Cons.prems(1) assms(1)]
    by (simp add: count_cell_def p)
  have np: "neighbors (cell_at ?a' x y) = num_neighbors g x y"
  proof (cases "(x, y) \<in> set ps")
    case True
    then show ?thesis using IH by auto
  next
    case False
    then have "cell_at ?a' x y = cell_at ?a1 x y" using IH ig by blast
    then show ?thesis using n1 by simp
  qed
  have other: "cell_at ?a' i j = cell_at a i j"
    if "in_grid g i j" and "(i, j) \<notin> set (p # ps)" for i j
  proof -
    have "cell_at ?a' i j = cell_at ?a1 i j" using IH that by auto
    moreover have "in_grid a i j" using that(1) by (simp add: recounts_in_grid [OF Cons.prems(1)])
    then have "cell_at ?a1 i j = cell_at a i j"
      using set_neighbors_other [OF iga, of i j] that(2) p by (simp add: count_cell_def)
    ultimately show ?thesis by simp
  qed
  show ?case
    using IH np other p by auto
qed

lemma calculate_neighbors_counts:
  assumes "allocated g"
  shows "recounts g (calculate_neighbors g)"
    and "in_grid g x y \<Longrightarrow> neighbors (cell_at (calculate_neighbors g) x y) = num_neighbors g x y"
proof -
  have "\<forall>p\<in>set (grid_coords g). in_grid g (fst p) (snd p)"
    by (auto simp: set_grid_coords)
  note f = fold_count_cell [OF assms recounts_refl this]
  show "recounts g (calculate_neighbors g)"
    using f by (simp add: calculate_neighbors_flat)
  show "neighbors (cell_at (calculate_neighbors g) x y) = num_neighbors g x y" if "in_grid g x y"
  proof -
    have "(x, y) \<in> set (grid_coords g)" using that by (simp add: set_grid_coords)
    then show ?thesis using f by (auto simp: calculate_neighbors_flat)
  qed
qed

lemma neighbors_computed_iff:
  "neighbors_computed g \<longleftrightarrow>
     (\<forall>x y. in_grid g x y \<longrightarrow> neighbors (cell_at g x y) = int (mines_around g x y))"
  by (auto simp: neighbors_computed_def set_grid_coords num_neighbors_eq)

lemma calculate_neighbors_computed:
  assumes "allocated g"
  shows "neighbors_computed (calculate_neighbors g)"
proof -
  note r = calculate_neighbors_counts(1) [OF assms]
  have "neighbors (cell_at (calculate_neighbors g) x y)
          = int (mines_around (calculate_neighbors g) x y)"
    if "in_grid (calculate_neighbors g) x y" for x y
  proof -
    have "in_grid g x y" using that by (simp add: recounts_in_grid [OF r])
    then show ?thesis
      using calculate_neighbors_counts(2) [OF assms, of x y]
      by (simp add: num_neighbors_eq recounts_mines_around [OF r assms])
  qed
  then show ?thesis by (simp add: neighbors_computed_iff)
qed

text \<open>
  C6. After \<open>calculate_neighbors\<close> every cell of the grid holds in \<open>neighbors\<close> the
  number of mines among the cells of the grid next to it, which are at most eight:
  cells outside the grid are not counted and nothing wraps around. The function
  changes nothing but the field \<open>neighbors\<close>, so the count is of the mines of the
  board after it as well as before.
\<close>

theorem calculate_neighbors_exact:
  assumes "allocated g" and "in_grid g x y"
  shows "neighbors (cell_at (calculate_neighbors g) x y) = int (mines_around g x y)
       \<and> mines_around g x y \<le> 8
       \<and> mines_around (calculate_neighbors g) x y = mines_around g x y
       \<and> recounts g (calculate_neighbors g)"
  using calculate_neighbors_counts [OF assms(1)] assms(2) mines_around_le [of g x y]
    recounts_mines_around [OF calculate_neighbors_counts(1) [OF assms(1)] assms(1), of x y]
  by (simp add: num_neighbors_eq)

theorem calculate_neighbors_exact_witness:
  "map neighbors (cells (calculate_neighbors count_example)) = [0, 1, 0, 0, 1, 1]
   \<and> mines_around count_example 1 1 = 1"
proof -
  have h1: "allocated count_example"
    by (simp add: allocated_def count_example_def board_def)
  have h2: "in_grid count_example 1 1"
    by (simp add: in_grid_def count_example_def board_def)
  have e: "map neighbors (cells (calculate_neighbors count_example)) = [0, 1, 0, 0, 1, 1]"
    by code_simp
  note t = calculate_neighbors_exact [OF h1 h2]
  from t have r: "recounts count_example (calculate_neighbors count_example)" by simp
  have w: "width (calculate_neighbors count_example) = 3"
    using recounts_fields(1) [OF r] by (simp add: count_example_def board_def)
  have i: "cell_index (calculate_neighbors count_example) 1 1 = 4"
    by (simp add: cell_index_def w)
  have len: "length (cells (calculate_neighbors count_example)) = 6"
    using recounts_fields(3) [OF r] by (simp add: count_example_def board_def)
  have "neighbors (cells (calculate_neighbors count_example) ! 4)
          = map neighbors (cells (calculate_neighbors count_example)) ! 4"
    using len by simp
  then have "neighbors (cell_at (calculate_neighbors count_example) 1 1) = 1"
    by (simp only: cell_at_def i e) simp
  with t have "int (mines_around count_example 1 1) = 1" by simp
  with e show ?thesis by simp
qed

section \<open>Placing the mines\<close>

lemma c_rem_mod:
  assumes "0 \<le> a" and "0 < b"
  shows "c_rem a b = a mod b"
proof (cases "a = 0")
  case True
  then show ?thesis by (simp add: c_rem_def c_div_def)
next
  case False
  then have "sgn a = 1" "sgn b = 1" "\<bar>a\<bar> = a" "\<bar>b\<bar> = b" using assms by simp_all
  then show ?thesis by (simp add: c_rem_def c_div_def minus_mult_div_eq_mod)
qed

lemma generate_mines_log_done:
  "\<not> i < num_mines g \<Longrightarrow> generate_mines_log rs g sx sy i ps = Some (g, ps)"
  by (subst generate_mines_log.simps) simp

lemma generate_mines_log_short:
  "i < num_mines g \<Longrightarrow> length rs < 2 \<Longrightarrow> generate_mines_log rs g sx sy i ps = None"
  by (subst generate_mines_log.simps) (auto split: list.splits)

lemma generate_mines_log_place:
  "i < num_mines g \<Longrightarrow>
   \<not> (c_rem (int r1) (width g) = sx \<and> c_rem (int r2) (height g) = sy) \<Longrightarrow>
   \<not> is_mine (cell_at g (c_rem (int r1) (width g)) (c_rem (int r2) (height g))) \<Longrightarrow>
   generate_mines_log (r1 # r2 # rs) g sx sy i ps =
     generate_mines_log rs
       (set_mine g (c_rem (int r1) (width g)) (c_rem (int r2) (height g))) sx sy (i + 1)
       (ps @ [(c_rem (int r1) (width g), c_rem (int r2) (height g))])"
  by (subst generate_mines_log.simps) (simp add: Let_def)

lemma generate_mines_log_skip:
  "i < num_mines g \<Longrightarrow>
   (c_rem (int r1) (width g) = sx \<and> c_rem (int r2) (height g) = sy)
   \<or> is_mine (cell_at g (c_rem (int r1) (width g)) (c_rem (int r2) (height g))) \<Longrightarrow>
   generate_mines_log (r1 # r2 # rs) g sx sy i ps = generate_mines_log rs g sx sy i ps"
  by (subst generate_mines_log.simps) (auto simp: Let_def)

lemma generate_mines_loop_done:
  "\<not> i < num_mines g \<Longrightarrow> generate_mines_loop rs g sx sy i = Some g"
  by (subst generate_mines_loop.simps) simp

lemma generate_mines_loop_short:
  "i < num_mines g \<Longrightarrow> length rs < 2 \<Longrightarrow> generate_mines_loop rs g sx sy i = None"
  by (subst generate_mines_loop.simps) (auto split: list.splits)

lemma generate_mines_loop_place:
  "i < num_mines g \<Longrightarrow>
   \<not> (c_rem (int r1) (width g) = sx \<and> c_rem (int r2) (height g) = sy) \<Longrightarrow>
   \<not> is_mine (cell_at g (c_rem (int r1) (width g)) (c_rem (int r2) (height g))) \<Longrightarrow>
   generate_mines_loop (r1 # r2 # rs) g sx sy i =
     generate_mines_loop rs
       (set_mine g (c_rem (int r1) (width g)) (c_rem (int r2) (height g))) sx sy (i + 1)"
  by (subst generate_mines_loop.simps) (simp add: Let_def)

lemma generate_mines_loop_skip:
  "i < num_mines g \<Longrightarrow>
   (c_rem (int r1) (width g) = sx \<and> c_rem (int r2) (height g) = sy)
   \<or> is_mine (cell_at g (c_rem (int r1) (width g)) (c_rem (int r2) (height g))) \<Longrightarrow>
   generate_mines_loop (r1 # r2 # rs) g sx sy i = generate_mines_loop rs g sx sy i"
  by (subst generate_mines_loop.simps) (auto simp: Let_def)

lemma two_or_short:
  obtains "length rs < 2" | r1 r2 rs' where "rs = r1 # r2 # rs'"
  by (cases rs; cases "tl rs") auto

lemma generate_mines_log_fst:
  "map_option fst (generate_mines_log rs g sx sy i ps) = generate_mines_loop rs g sx sy i"
proof (induction "length rs" arbitrary: rs g i ps rule: less_induct)
  case less
  show ?case
  proof (cases "i < num_mines g")
    case False
    then show ?thesis
      by (simp add: generate_mines_log_done generate_mines_loop_done)
  next
    case True
    note lt = True
    show ?thesis
    proof (cases rule: two_or_short [of rs])
      case 1
      then show ?thesis
        by (simp add: generate_mines_log_short [OF lt] generate_mines_loop_short [OF lt])
    next
      case (2 r1 r2 rs')
      have sh: "length rs' < length rs" using 2 by simp
      let ?x = "c_rem (int r1) (width g)" and ?y = "c_rem (int r2) (height g)"
      show ?thesis
      proof (cases "(?x = sx \<and> ?y = sy) \<or> is_mine (cell_at g ?x ?y)")
        case True
        show ?thesis
          unfolding 2
          by (simp only: generate_mines_log_skip [OF lt True] generate_mines_loop_skip [OF lt True]
              less [OF sh])
      next
        case False
        then have a: "\<not> (?x = sx \<and> ?y = sy)" and b: "\<not> is_mine (cell_at g ?x ?y)" by simp_all
        show ?thesis
          unfolding 2
          by (simp only: generate_mines_log_place [OF lt a b] generate_mines_loop_place [OF lt a b]
              less [OF sh])
      qed
    qed
  qed
qed


lemma places_refl: "places g g"
  by (simp add: places_def)

lemma places_trans: "places a b \<Longrightarrow> places b c \<Longrightarrow> places a c"
  by (simp add: places_def)

lemma places_fields:
  assumes "places g g'"
  shows "width g' = width g" "height g' = height g" "num_mines g' = num_mines g"
    "length (cells g') = length (cells g)"
proof -
  have e: "g'\<lparr>cells := []\<rparr> = g\<lparr>cells := []\<rparr>" using assms by (simp add: places_def)
  show "width g' = width g" using arg_cong [OF e, of width] by simp
  show "height g' = height g" using arg_cong [OF e, of height] by simp
  show "num_mines g' = num_mines g" using arg_cong [OF e, of num_mines] by simp
  show "length (cells g') = length (cells g)" using assms by (simp add: places_def)
qed

lemma places_in_grid: "places g g' \<Longrightarrow> in_grid g' i j = in_grid g i j"
  by (simp add: in_grid_def places_fields)

lemma places_allocated: "places g g' \<Longrightarrow> allocated g \<Longrightarrow> allocated g'"
  by (simp add: allocated_def places_fields)

lemma set_mine_places: "places g (set_mine g x y)"
proof -
  have "state ((cells g)[cell_index g x y := (cell_at g x y)\<lparr>is_mine := True\<rparr>] ! k)
          = state (cells g ! k)
        \<and> neighbors ((cells g)[cell_index g x y := (cell_at g x y)\<lparr>is_mine := True\<rparr>] ! k)
          = neighbors (cells g ! k)
        \<and> (is_mine (cells g ! k) \<longrightarrow>
             is_mine ((cells g)[cell_index g x y := (cell_at g x y)\<lparr>is_mine := True\<rparr>] ! k))"
    if "k < length (cells g)" for k
    using that by (cases "k = cell_index g x y") (simp_all add: cell_at_def)
  then show ?thesis by (simp add: places_def set_mine_def)
qed

lemma set_mine_same:
  "in_grid g x y \<Longrightarrow> allocated g \<Longrightarrow> is_mine (cell_at (set_mine g x y) x y)"
  using cell_index_less [of g x y]
  by (simp add: set_mine_def cell_at_def cell_index_def)

lemma set_mine_other:
  assumes "in_grid g x y" and "in_grid g i j" and "(i, j) \<noteq> (x, y)"
  shows "cell_at (set_mine g x y) i j = cell_at g i j"
proof -
  have "cell_index g i j \<noteq> cell_index g x y"
    using cell_index_inj [OF assms(2,1)] assms(3) by auto
  then show ?thesis
    by (simp add: cell_at_def set_mine_def cell_index_def)
qed

lemma length_filter_update:
  assumes "k < length xs" and "\<not> P (xs ! k)" and "P c"
  shows "length (filter P (xs[k := c])) = Suc (length (filter P xs))"
proof -
  have "length (filter P (take k xs @ xs ! k # drop (Suc k) xs))
        = length (filter P (take k xs)) + length (filter P (drop (Suc k) xs))"
    using assms(2) by simp
  then have "length (filter P xs)
        = length (filter P (take k xs)) + length (filter P (drop (Suc k) xs))"
    using assms(1) by (simp only: id_take_nth_drop [symmetric])
  then show ?thesis
    using assms(1,3) by (simp add: upd_conv_take_nth_drop)
qed

lemma set_mine_count:
  assumes "in_grid g x y" and "allocated g" and "\<not> is_mine (cell_at g x y)"
  shows "mine_count (set_mine g x y) = Suc (mine_count g)"
proof -
  have "cell_index g x y < length (cells g)" using assms(1,2) by (rule cell_index_less)
  then show ?thesis
    using assms(3) unfolding mine_count_def set_mine_def
    by (simp add: length_filter_update cell_at_def)
qed

lemma placing_step:
  assumes p: "placing g0 sx sy a i ps" and al: "allocated g0"
    and lt: "i < num_mines a"
    and x: "x = c_rem (int r1) (width a)" and y: "y = c_rem (int r2) (height a)"
    and ns: "\<not> (x = sx \<and> y = sy)" and nm: "\<not> is_mine (cell_at a x y)"
    and pos: "0 < width g0" "0 < height g0"
  shows "placing g0 sx sy (set_mine a x y) (i + 1) (ps @ [(x, y)])"
proof -
  have pl: "places g0 a" using p by (simp add: placing_def)
  have ala: "allocated a" using pl al by (rule places_allocated)
  have "x = int r1 mod width g0" "y = int r2 mod height g0"
    using x y pos by (simp_all add: c_rem_mod places_fields [OF pl])
  then have ig0: "in_grid g0 x y" using pos by (simp add: in_grid_def)
  then have iga: "in_grid a x y" by (simp add: places_in_grid [OF pl])
  have mem: "is_mine (cell_at a i j) \<longleftrightarrow> (i, j) \<in> set ps" if "in_grid g0 i j" for i j
    using p that by (simp add: placing_def)
  have fresh: "(x, y) \<notin> set ps" using mem [OF ig0] nm by simp
  have mem': "is_mine (cell_at (set_mine a x y) i j) \<longleftrightarrow> (i, j) \<in> set (ps @ [(x, y)])"
    if "in_grid g0 i j" for i j
  proof (cases "(i, j) = (x, y)")
    case True
    then show ?thesis using set_mine_same [OF iga ala] by simp
  next
    case False
    have "in_grid a i j" using that by (simp add: places_in_grid [OF pl])
    then have "cell_at (set_mine a x y) i j = cell_at a i j"
      using iga False by (intro set_mine_other)
    then show ?thesis using mem [OF that] False by auto
  qed
  have "places g0 (set_mine a x y)" using pl set_mine_places by (rule places_trans)
  moreover have "mine_count (set_mine a x y) = nat (i + 1)"
    using set_mine_count [OF iga ala nm] p by (simp add: placing_def nat_add_distrib)
  moreover have "i + 1 \<le> num_mines g0" using lt by (simp add: places_fields [OF pl])
  moreover have "length (ps @ [(x, y)]) = nat (i + 1)"
    using p by (simp add: placing_def nat_add_distrib)
  moreover have "distinct (ps @ [(x, y)])" using p fresh by (simp add: placing_def)
  moreover have "\<forall>q\<in>set (ps @ [(x, y)]). in_grid g0 (fst q) (snd q) \<and> q \<noteq> (sx, sy)"
    using p ig0 ns by (auto simp: placing_def)
  moreover have "0 \<le> i + 1" using p by (simp add: placing_def)
  ultimately show ?thesis using mem' by (simp add: placing_def)
qed

lemma generate_mines_log_placing:
  assumes al: "allocated g0" and pos: "0 < width g0" "0 < height g0"
  shows "placing g0 sx sy a i ps \<Longrightarrow> generate_mines_log rs a sx sy i ps = Some (g', ps') \<Longrightarrow>
         placing g0 sx sy g' (num_mines g0) ps'"
proof (induction "length rs" arbitrary: rs a i ps rule: less_induct)
  case less
  have pl: "places g0 a" using less.prems(1) by (simp add: placing_def)
  have nm: "num_mines a = num_mines g0" using pl by (rule places_fields)
  show ?case
  proof (cases "i < num_mines a")
    case False
    then have "g' = a" "ps' = ps"
      using less.prems(2) by (simp_all add: generate_mines_log_done)
    moreover have "i = num_mines g0"
      using False less.prems(1) nm by (simp add: placing_def)
    ultimately show ?thesis using less.prems(1) by simp
  next
    case True
    note lt = True
    show ?thesis
    proof (cases rule: two_or_short [of rs])
      case 1
      then show ?thesis using less.prems(2) by (simp add: generate_mines_log_short [OF lt])
    next
      case (2 r1 r2 rs')
      have sh: "length rs' < length rs" using 2 by simp
      let ?x = "c_rem (int r1) (width a)" and ?y = "c_rem (int r2) (height a)"
      show ?thesis
      proof (cases "(?x = sx \<and> ?y = sy) \<or> is_mine (cell_at a ?x ?y)")
        case True
        have "generate_mines_log rs' a sx sy i ps = Some (g', ps')"
          using less.prems(2) unfolding 2 by (simp only: generate_mines_log_skip [OF lt True])
        with less.prems(1) show ?thesis by (rule less.hyps [OF sh])
      next
        case False
        then have a: "\<not> (?x = sx \<and> ?y = sy)" and b: "\<not> is_mine (cell_at a ?x ?y)" by simp_all
        have "generate_mines_log rs' (set_mine a ?x ?y) sx sy (i + 1) (ps @ [(?x, ?y)])
              = Some (g', ps')"
          using less.prems(2) unfolding 2 by (simp only: generate_mines_log_place [OF lt a b])
        moreover have "placing g0 sx sy (set_mine a ?x ?y) (i + 1) (ps @ [(?x, ?y)])"
          using less.prems(1) al lt refl refl a b pos by (rule placing_step)
        ultimately show ?thesis by (intro less.hyps [OF sh])
      qed
    qed
  qed
qed


text \<open>
  C5. On a board without mines, for a start cell of the grid and \<open>num_mines\<close> not
  negative: when \<open>generate_mines\<close> returns, exactly \<open>num_mines\<close> cells are mines, the
  start cell is not one of them, the cells the loop chose are all different and are
  the mines, and nothing but \<open>is_mine\<close> has changed. Whether it returns depends on
  the numbers \<open>rand()\<close> delivers; with fewer mines than cells there are numbers on
  which it does.
\<close>

theorem generate_mines_places_exactly:
  assumes "allocated g" and "in_grid g start_x start_y"
    and "list_all (\<lambda>c. \<not> is_mine c) (cells g)" and "0 \<le> num_mines g"
    and "generate_mines rs g start_x start_y = Some g'"
  shows "mine_count g' = nat (num_mines g)
       \<and> \<not> is_mine (cell_at g' start_x start_y)
       \<and> places g g'
       \<and> (\<exists>ps. generate_mines_log rs g start_x start_y 0 [] = Some (g', ps)
              \<and> length ps = nat (num_mines g) \<and> distinct ps
              \<and> (start_x, start_y) \<notin> set ps
              \<and> (\<forall>x y. in_grid g x y \<longrightarrow> (is_mine (cell_at g' x y) \<longleftrightarrow> (x, y) \<in> set ps)))"
proof -
  have pos: "0 < width g" "0 < height g" using assms(2) by (auto simp: in_grid_def)
  have none: "\<not> is_mine (cell_at g x y)" if "in_grid g x y" for x y
    using assms(3) cell_index_less [OF that assms(1)] by (simp add: list_all_length cell_at_def)
  have "filter is_mine (cells g) = []"
    using assms(3) by (simp add: list_all_iff filter_empty_conv)
  then have zero: "mine_count g = 0" by (simp add: mine_count_def)
  have init: "placing g start_x start_y g 0 []"
    using assms(4) zero none by (simp add: placing_def places_refl)
  have "map_option fst (generate_mines_log rs g start_x start_y 0 []) = Some g'"
    using assms(5) by (simp only: generate_mines_log_fst generate_mines_def)
  then obtain ps where ps: "generate_mines_log rs g start_x start_y 0 [] = Some (g', ps)"
    by auto
  have fin: "placing g start_x start_y g' (num_mines g) ps"
    using assms(1) pos init ps by (rule generate_mines_log_placing)
  have s: "(start_x, start_y) \<notin> set ps" using fin by (auto simp: placing_def)
  have m: "\<forall>x y. in_grid g x y \<longrightarrow> (is_mine (cell_at g' x y) \<longleftrightarrow> (x, y) \<in> set ps)"
    using fin by (simp add: placing_def)
  have "\<not> is_mine (cell_at g' start_x start_y)" using m s assms(2) by blast
  moreover have "mine_count g' = nat (num_mines g)" "places g g'"
    "length ps = nat (num_mines g)" "distinct ps"
    using fin by (simp_all add: placing_def)
  ultimately show ?thesis using ps s m by blast
qed

theorem generate_mines_places_exactly_witness:
  "map is_mine (cells (the (generate_mines [2, 1] empty_example 0 0)))
     = [False, False, False, False, False, True]
   \<and> mine_count (the (generate_mines [2, 1] empty_example 0 0)) = 1"
proof -
  have h1: "allocated empty_example"
    by (simp add: allocated_def empty_example_def clear_cells_def board_def)
  have h2: "in_grid empty_example 0 0"
    by (simp add: in_grid_def empty_example_def clear_cells_def board_def)
  have h3: "list_all (\<lambda>c. \<not> is_mine c) (cells empty_example)"
    by (simp add: empty_example_def clear_cells_def board_def zero_cell_def list_all_iff)
  have h4: "0 \<le> num_mines empty_example"
    by (simp add: empty_example_def clear_cells_def board_def)
  have e: "map_option (map is_mine \<circ> cells) (generate_mines [2, 1] empty_example 0 0)
           = Some [False, False, False, False, False, True]"
    by code_simp
  then obtain g' where h5: "generate_mines [2, 1] empty_example 0 0 = Some g'"
    by auto
  have n: "nat (num_mines empty_example) = 1"
    by (simp add: empty_example_def clear_cells_def board_def)
  from generate_mines_places_exactly [OF h1 h2 h3 h4 h5] n e h5 show ?thesis by simp
qed

section \<open>The placement can finish\<close>

text \<open>
  With fewer mines than cells there are numbers for \<open>rand()\<close> on which the loop of
  \<open>generate_mines\<close> returns: a free cell other than the start cell is always left.
\<close>

lemma length_grid_coords: "length (grid_coords g) = nat (height g) * nat (width g)"
proof -
  have "length (concat (map (\<lambda>y. map (\<lambda>x. (x, y)) xs) ys)) = length ys * length xs"
    for xs ys :: "int list"
    by (induction ys) simp_all
  then show ?thesis by (simp add: grid_coords_def)
qed

lemma distinct_grid_coords: "distinct (grid_coords g)"
proof -
  have "distinct (concat (map (\<lambda>y. map (\<lambda>x. (x, y)) xs) ys))"
    if "distinct xs" and "distinct ys" for xs ys :: "int list"
    using that(2)
  proof (induction ys)
    case Nil
    then show ?case by simp
  next
    case (Cons y ys)
    have "distinct (map (\<lambda>x. (x, y)) xs)"
      using that(1) by (simp add: distinct_map inj_on_def)
    moreover have "set (map (\<lambda>x. (x, y)) xs) \<inter> set (concat (map (\<lambda>y. map (\<lambda>x. (x, y)) xs) ys)) = {}"
      using Cons.prems by auto
    ultimately show ?case using Cons by simp
  qed
  then show ?thesis by (simp add: grid_coords_def)
qed

lemma free_cell_exists:
  assumes "0 < width g" and "0 < height g" and "distinct ps"
    and "int (length ps) + 1 < width g * height g"
  shows "\<exists>x y. in_grid g x y \<and> (x, y) \<noteq> (sx, sy) \<and> (x, y) \<notin> set ps"
proof (rule ccontr)
  assume "\<not> ?thesis"
  then have "set (grid_coords g) \<subseteq> insert (sx, sy) (set ps)"
    by (auto simp: set_grid_coords)
  then have "card (set (grid_coords g)) \<le> card (insert (sx, sy) (set ps))"
    by (intro card_mono) simp_all
  also have "\<dots> \<le> Suc (card (set ps))" by (simp add: card_insert_if)
  also have "\<dots> \<le> Suc (length ps)" by (simp add: card_length)
  finally have "length (grid_coords g) \<le> Suc (length ps)"
    by (simp add: distinct_card [OF distinct_grid_coords])
  then have "nat (height g) * nat (width g) \<le> Suc (length ps)"
    by (simp add: length_grid_coords)
  then have "int (nat (height g) * nat (width g)) \<le> int (Suc (length ps))"
    by (simp only: of_nat_le_iff)
  then have "height g * width g \<le> int (length ps) + 1"
    using assms(1,2) by simp
  then show False using assms(4) by (simp add: mult.commute)
qed

lemma generate_mines_log_can_finish:
  assumes al: "allocated g0" and st: "in_grid g0 sx sy"
    and room: "num_mines g0 < width g0 * height g0"
  shows "placing g0 sx sy a i ps \<Longrightarrow> \<exists>rs r. generate_mines_log rs a sx sy i ps = Some r"
proof (induction "nat (num_mines g0 - i)" arbitrary: a i ps)
  case 0
  have "num_mines a = num_mines g0"
    using "0.prems" by (simp add: placing_def places_fields)
  then have "\<not> i < num_mines a" using "0.hyps" by simp
  then show ?case by (auto simp: generate_mines_log_done)
next
  case (Suc k)
  have pos: "0 < width g0" "0 < height g0" using st by (auto simp: in_grid_def)
  have pl: "places g0 a" using Suc.prems by (simp add: placing_def)
  have wh: "width a = width g0" "height a = height g0" "num_mines a = num_mines g0"
    using places_fields [OF pl] by simp_all
  have lt: "i < num_mines a" using Suc.hyps(2) wh by simp
  have len: "length ps = nat i" "0 \<le> i" "distinct ps" using Suc.prems by (simp_all add: placing_def)
  have "int (length ps) + 1 < width g0 * height g0"
    using len lt wh room by simp
  with pos len(3) obtain x y where xy: "in_grid g0 x y" "(x, y) \<noteq> (sx, sy)" "(x, y) \<notin> set ps"
    using free_cell_exists [of g0 ps sx sy] by blast
  have x: "c_rem (int (nat x)) (width a) = x" and y: "c_rem (int (nat y)) (height a) = y"
    using xy(1) pos by (simp_all add: in_grid_def wh c_rem_mod)
  have nm: "\<not> is_mine (cell_at a x y)"
    using Suc.prems xy(1,3) by (simp add: placing_def)
  have ns: "\<not> (x = sx \<and> y = sy)" using xy(2) by simp
  have "placing g0 sx sy (set_mine a x y) (i + 1) (ps @ [(x, y)])"
    using Suc.prems al lt x [symmetric] y [symmetric] ns nm pos by (rule placing_step)
  moreover have "k = nat (num_mines g0 - (i + 1))" using Suc.hyps(2) by simp
  ultimately obtain rs r
    where r: "generate_mines_log rs (set_mine a x y) sx sy (i + 1) (ps @ [(x, y)]) = Some r"
    using Suc.hyps(1) by blast
  have "generate_mines_log (nat x # nat y # rs) a sx sy i ps
        = generate_mines_log rs (set_mine a x y) sx sy (i + 1) (ps @ [(x, y)])"
    using generate_mines_log_place [of i a "nat x" sx "nat y" sy rs ps] lt ns nm
    unfolding x y by blast
  with r have "generate_mines_log (nat x # nat y # rs) a sx sy i ps = Some r"
    by (simp only:)
  then show ?case by blast
qed

lemma generate_mines_can_finish:
  assumes "allocated g" and "in_grid g start_x start_y"
    and "list_all (\<lambda>c. \<not> is_mine c) (cells g)"
    and "0 \<le> num_mines g" and "num_mines g < width g * height g"
  shows "\<exists>rs g'. generate_mines rs g start_x start_y = Some g'"
proof -
  have none: "\<not> is_mine (cell_at g x y)" if "in_grid g x y" for x y
    using assms(3) cell_index_less [OF that assms(1)] by (simp add: list_all_length cell_at_def)
  have "filter is_mine (cells g) = []"
    using assms(3) by (simp add: list_all_iff filter_empty_conv)
  then have zero: "mine_count g = 0" by (simp add: mine_count_def)
  have init: "placing g start_x start_y g 0 []"
    using assms(4) zero none by (simp add: placing_def places_refl)
  obtain rs r where "generate_mines_log rs g start_x start_y 0 [] = Some r"
    using generate_mines_log_can_finish [OF assms(1,2,5) init] by blast
  then have "map_option fst (generate_mines_log rs g start_x start_y 0 []) = Some (fst r)"
    by simp
  then have "generate_mines rs g start_x start_y = Some (fst r)"
    by (simp only: generate_mines_log_fst generate_mines_def)
  then show ?thesis by blast
qed

section \<open>Revealing a zero\<close>

lemma unveils_fields_cell:
  assumes "unveils g g'" and "in_grid g i j" and "allocated g"
  shows "is_mine (cell_at g' i j) = is_mine (cell_at g i j)"
    and "neighbors (cell_at g' i j) = neighbors (cell_at g i j)"
  using unveils_cell_at [OF assms] by (auto simp: cell_unveils_def)

lemma unveils_is_zero:
  assumes "unveils g g'" and "allocated g"
  shows "is_zero g' i j = is_zero g i j"
proof (cases "in_grid g i j")
  case True
  then show ?thesis
    using unveils_fields_cell [OF assms(1) True assms(2)] unveils_in_grid [OF assms(1)]
    by (simp add: is_zero_def)
next
  case False
  then show ?thesis using unveils_in_grid [OF assms(1)] by (simp add: is_zero_def)
qed

lemma unveils_keeps_uncovered:
  assumes "unveils g g'" and "in_grid g i j" and "allocated g"
    and "state (cell_at g i j) \<noteq> COVERED"
  shows "state (cell_at g' i j) \<noteq> COVERED"
  using unveils_stays_uncovered [OF assms] assms(4) by simp

lemma unveils_was_covered:
  assumes "unveils g g'" and "in_grid g i j" and "allocated g"
    and "state (cell_at g' i j) = COVERED"
  shows "state (cell_at g i j) = COVERED"
  using unveils_cell_at [OF assms(1,2,3)] assms(4) by (rule cell_unveils_covered)

lemma settled_refl: "settled g g"
  unfolding settled_def by blast

lemma settled_trans:
  assumes al: "allocated g" and ga: "unveils g a" and ab: "unveils a b"
    and 1: "settled g a" and 2: "settled a b"
  shows "settled g b"
  unfolding settled_def
proof (intro allI impI)
  fix i j i' j'
  assume h: "is_zero g i j \<and> state (cell_at g i j) = COVERED
          \<and> state (cell_at b i j) \<noteq> COVERED \<and> in_grid g i' j' \<and> neighbor_of i j i' j'"
  have ala: "allocated a" using ga al by (rule unveils_allocated)
  have ig: "in_grid g i j" using h by (simp add: is_zero_def)
  have ig': "in_grid a i' j'" using h by (simp add: unveils_in_grid [OF ga])
  show "state (cell_at b i' j') \<noteq> COVERED"
  proof (cases "state (cell_at a i j) = COVERED")
    case True
    moreover have "is_zero a i j" using h by (simp add: unveils_is_zero [OF ga al])
    ultimately show ?thesis using 2 h ig' unfolding settled_def by blast
  next
    case False
    then have "state (cell_at a i' j') \<noteq> COVERED" using 1 h unfolding settled_def by blast
    with ab ig' ala show ?thesis by (rule unveils_keeps_uncovered)
  qed
qed

lemma cascade_loop_reveals:
  assumes "allocated g" and "for_each (cascade_body m x y) g (window x y) = Some g'"
    and "in_grid g i j" and "neighbor_of x y i j"
  shows "state (cell_at g' i j) \<noteq> COVERED"
proof -
  let ?R = "\<lambda>p a. in_grid g (fst p) (snd p) \<and> \<not> (fst p = x \<and> snd p = y)
                \<longrightarrow> state (cell_at a (fst p) (snd p)) \<noteq> COVERED"
  have "\<forall>p\<in>set (window x y). ?R p g'"
    using assms(2) unveils_refl [of g]
  proof (rule for_each_establishes [where Q = "unveils g" and R = ?R])
    fix a and p :: "int \<times> int" and b
    assume a: "unveils g a" and b: "cascade_body m x y a p = Some b"
    have al: "allocated a" using a assms(1) by (rule unveils_allocated)
    have ab: "unveils a b" using al b by (rule cascade_step_unveils)
    have "?R p b"
    proof (intro impI)
      assume h: "in_grid g (fst p) (snd p) \<and> \<not> (fst p = x \<and> snd p = y)"
      then have ig: "in_grid a (fst p) (snd p)" by (simp add: unveils_in_grid [OF a])
      have call: "uncover_fuel m a (fst p) (snd p) = Some b"
        using b h ig by (simp add: case_prod_beta)
      show "state (cell_at b (fst p) (snd p)) \<noteq> COVERED"
      proof (cases "state (cell_at a (fst p) (snd p)) = COVERED")
        case True
        with ig al show ?thesis using call by (rule uncover_fuel_leaves_covered)
      next
        case False
        with ab ig al show ?thesis by (rule unveils_keeps_uncovered)
      qed
    qed
    moreover have "unveils g b" using a ab by (rule unveils_trans)
    ultimately show "unveils g b \<and> ?R p b" by simp
  next
    fix a and p q :: "int \<times> int" and b
    assume a: "unveils g a" and b: "cascade_body m x y a p = Some b" and r: "?R q a"
    have al: "allocated a" using a assms(1) by (rule unveils_allocated)
    have ab: "unveils a b" using al b by (rule cascade_step_unveils)
    show "?R q b"
    proof (intro impI)
      assume h: "in_grid g (fst q) (snd q) \<and> \<not> (fst q = x \<and> snd q = y)"
      then have ig: "in_grid a (fst q) (snd q)" by (simp add: unveils_in_grid [OF a])
      have "state (cell_at a (fst q) (snd q)) \<noteq> COVERED" using r h by simp
      with ab ig al show "state (cell_at b (fst q) (snd q)) \<noteq> COVERED"
        by (rule unveils_keeps_uncovered)
    qed
  qed
  moreover have "(i, j) \<in> set (window x y)"
    using assms(4) by (simp add: set_window neighbor_of_def)
  ultimately have "?R (i, j) g'" by blast
  then show ?thesis using assms(3,4) by (simp add: neighbor_of_def)
qed


lemma settled_set_state:
  assumes "in_grid g x y" and "\<not> is_zero g x y"
  shows "settled g (set_state g x y s)"
  unfolding settled_def
proof (intro allI impI)
  fix i j i' j'
  assume h: "is_zero g i j \<and> state (cell_at g i j) = COVERED
          \<and> state (cell_at (set_state g x y s) i j) \<noteq> COVERED
          \<and> in_grid g i' j' \<and> neighbor_of i j i' j'"
  then have "in_grid g i j" and "(i, j) \<noteq> (x, y)" using assms(2) by (auto simp: is_zero_def)
  then have "cell_at (set_state g x y s) i j = cell_at g i j"
    using assms(1) by (intro set_state_other)
  then have False using h by auto
  then show "state (cell_at (set_state g x y s) i' j') \<noteq> COVERED" ..
qed

lemma loop_settled:
  assumes al: "allocated g"
    and body: "\<And>a p b. allocated a \<Longrightarrow> f a p = Some b \<Longrightarrow> unveils a b \<and> settled a b"
    and loop: "for_each f g ps = Some g'"
  shows "unveils g g' \<and> settled g g'"
  using loop
proof (rule for_each_preserves [where Q = "\<lambda>a. unveils g a \<and> settled g a"])
  show "unveils g g \<and> settled g g" by (simp add: unveils_refl settled_refl)
next
  fix a p b
  assume a: "unveils g a \<and> settled g a" and b: "f a p = Some b"
  have ala: "allocated a" using a al by (auto intro: unveils_allocated)
  have ab: "unveils a b \<and> settled a b" using ala b by (rule body)
  have "unveils g b" using a ab by (auto intro: unveils_trans)
  moreover have "settled g b" using al a ab by (auto intro: settled_trans)
  ultimately show "unveils g b \<and> settled g b" by simp
qed

lemma uncover_fuel_settled:
  "in_grid g x y \<Longrightarrow> allocated g \<Longrightarrow> uncover_fuel n g x y = Some g' \<Longrightarrow> settled g g'"
proof (induction n arbitrary: g x y g')
  case 0
  then show ?case by (simp add: uncover_fuel.simps)
next
  case (Suc n)
  note IH = Suc.IH
  have casc: "unveils a b \<and> settled a b"
    if "allocated a" and "cascade_body n x y a p = Some b" for a p b
  proof -
    obtain i j where p: "p = (i, j)" by (cases p)
    have u: "unveils a b" using that by (rule cascade_step_unveils)
    have "settled a b"
    proof (cases "in_grid a i j \<and> \<not> (i = x \<and> j = y)")
      case True
      then have "in_grid a i j" and "uncover_fuel n a i j = Some b" using that(2) p by simp_all
      then show ?thesis using that(1) by (intro IH)
    next
      case False
      then have "b = a" using that(2) p by (simp split: if_splits)
      then show ?thesis by (simp add: settled_refl)
    qed
    with u show ?thesis by simp
  qed
  have chrd: "unveils a b \<and> settled a b"
    if "allocated a" and "chord_body n x y a p = Some b" for a p b
  proof -
    obtain i j where p: "p = (i, j)" by (cases p)
    have u: "unveils a b" using that by (rule chord_step_unveils)
    have "settled a b"
    proof (cases "in_grid a i j \<and> \<not> (i = x \<and> j = y) \<and> state (cell_at a i j) = COVERED")
      case True
      then have "in_grid a i j" and "uncover_fuel n a i j = Some b" using that(2) p by simp_all
      then show ?thesis using that(1) by (intro IH)
    next
      case False
      then have "b = a" using that(2) p by (simp split: if_splits)
      then show ?thesis by (simp add: settled_refl)
    qed
    with u show ?thesis by simp
  qed
  from Suc.prems(3) show ?case
  proof (cases rule: uncover_fuel_cases)
    case (mine m)
    then have "\<not> is_zero g x y" by (simp add: is_zero_def)
    with Suc.prems(1) show ?thesis unfolding mine(4) by (rule settled_set_state)
  next
    case (number m)
    have "neighbors (cell_at g x y) \<noteq> 0"
      using number(4) cell_at_set_state_same [OF Suc.prems(1,2), of UNCOVERED] by simp
    then have "\<not> is_zero g x y" by (simp add: is_zero_def)
    with Suc.prems(1) show ?thesis unfolding number(5) by (rule settled_set_state)
  next
    case (zero m)
    have m: "m = n" using zero(1) by simp
    let ?g1 = "set_state g x y UNCOVERED"
    have g1: "unveils g ?g1" using Suc.prems(1,2) zero(2,3) by (rule unveils_uncover)
    have a1: "allocated ?g1" using g1 Suc.prems(2) by (rule unveils_allocated)
    have loop: "for_each (cascade_body n x y) ?g1 (window x y) = Some g'"
      using zero(5) by (simp only: m)
    have l: "unveils ?g1 g' \<and> settled ?g1 g'"
      using a1 casc loop by (rule loop_settled)
    show ?thesis
      unfolding settled_def
    proof (intro allI impI)
      fix i j i' j'
      assume h: "is_zero g i j \<and> state (cell_at g i j) = COVERED
          \<and> state (cell_at g' i j) \<noteq> COVERED \<and> in_grid g i' j' \<and> neighbor_of i j i' j'"
      then have ig: "in_grid g i j" by (simp add: is_zero_def)
      have ig1': "in_grid ?g1 i' j'" using h by (simp add: unveils_in_grid [OF g1])
      show "state (cell_at g' i' j') \<noteq> COVERED"
      proof (cases "(i, j) = (x, y)")
        case True
        then have "neighbor_of x y i' j'" using h by simp
        with a1 loop ig1' show ?thesis by (rule cascade_loop_reveals)
      next
        case False
        then have "cell_at ?g1 i j = cell_at g i j"
          using Suc.prems(1) ig by (intro set_state_other)
        moreover have "is_zero ?g1 i j" using h by (simp add: unveils_is_zero [OF g1 Suc.prems(2)])
        ultimately show ?thesis using l h ig1' unfolding settled_def by metis
      qed
    qed
  next
    case (chord m)
    have m: "m = n" using chord(1) by simp
    have "for_each (chord_body n x y) g (window x y) = Some g'" using chord(4) by (simp only: m)
    with Suc.prems(2) chrd have "unveils g g' \<and> settled g g'" by (rule loop_settled)
    then show ?thesis by simp
  next
    case (other m)
    then show ?thesis by (simp add: settled_refl)
  qed
qed


lemma zero_no_mine_neighbor:
  assumes "neighbors_computed g" and "is_zero g i j"
    and "in_grid g i' j'" and "neighbor_of i j i' j'"
  shows "\<not> is_mine (cell_at g i' j')"
proof
  assume m: "is_mine (cell_at g i' j')"
  let ?M = "{(a, b). in_grid g a b \<and> neighbor_of i j a b \<and> is_mine (cell_at g a b)}"
  have "?M \<subseteq> set (window i j)" by (auto simp: set_window neighbor_of_def)
  then have fin: "finite ?M" by (rule finite_subset) simp
  have "in_grid g i j" "neighbors (cell_at g i j) = 0"
    using assms(2) by (simp_all add: is_zero_def)
  moreover have "\<forall>x y. in_grid g x y \<longrightarrow> neighbors (cell_at g x y) = int (mines_around g x y)"
    using assms(1) by (simp only: neighbors_computed_iff)
  ultimately have "int (mines_around g i j) = 0" by metis
  then have "card ?M = 0" by (simp add: mines_around_def)
  then have "?M = {}" using fin by simp
  moreover have "(i', j') \<in> ?M" using assms(3,4) m by simp
  ultimately show False by blast
qed

lemma covered_zero_region_revealed:
  assumes "allocated g" and "in_grid g x y" and "state (cell_at g x y) = COVERED"
    and "is_zero g x y" and "uncover_fuel n g x y = Some g'"
    and "(i, j) \<in> covered_zero_region g x y"
  shows "is_zero g i j \<and> state (cell_at g i j) = COVERED \<and> state (cell_at g' i j) \<noteq> COVERED"
  using assms(6)
proof (induction rule: covered_zero_region.induct)
  case start
  show ?case
    using assms(3,4) uncover_fuel_leaves_covered [OF assms(2,1,3,5)] by simp
next
  case (step i j i' j')
  have "settled g g'" using assms(2,1,5) by (rule uncover_fuel_settled)
  moreover have "in_grid g i' j'" using step.hyps(3) by (simp add: is_zero_def)
  ultimately have "state (cell_at g' i' j') \<noteq> COVERED"
    using step.IH step.hyps(2) unfolding settled_def by blast
  then show ?case using step.hyps(3,4) by simp
qed

lemma covered_zero_region_boundary_revealed:
  assumes "allocated g" and "neighbors_computed g" and "in_grid g x y"
    and "state (cell_at g x y) = COVERED" and "is_zero g x y"
    and "uncover_fuel n g x y = Some g'"
    and "(i', j') \<in> with_boundary g (covered_zero_region g x y)"
    and "state (cell_at g i' j') = COVERED"
  shows "cell_at g' i' j' = (cell_at g i' j')\<lparr>state := UNCOVERED\<rparr>"
proof -
  have u: "unveils g g'" using assms(3,1,6) by (rule uncover_fuel_unveils)
  have st: "settled g g'" using assms(3,1,6) by (rule uncover_fuel_settled)
  from assms(7) obtain i j where ig: "in_grid g i' j'"
    and r: "(i, j) \<in> covered_zero_region g x y"
    and n: "(i', j') = (i, j) \<or> neighbor_of i j i' j'"
    by (auto simp: with_boundary_def)
  note c = covered_zero_region_revealed [OF assms(1,3,4,5,6) r]
  have "state (cell_at g' i' j') \<noteq> COVERED \<and> \<not> is_mine (cell_at g i' j')"
  proof (cases "(i', j') = (i, j)")
    case True
    then show ?thesis using c by (simp add: is_zero_def)
  next
    case False
    then have nb: "neighbor_of i j i' j'" using n by blast
    have "state (cell_at g' i' j') \<noteq> COVERED"
      using st c ig nb unfolding settled_def by blast
    moreover have "\<not> is_mine (cell_at g i' j')"
      using assms(2) c ig nb by (intro zero_no_mine_neighbor [of g i j]) simp_all
    ultimately show ?thesis by simp
  qed
  then show ?thesis
    using unveils_revealed [OF u ig assms(1,8)] by simp
qed


lemma unveils_no_flags:
  assumes "unveils g g'" and "no_flags g"
  shows "no_flags g'"
proof -
  have "state (cells g' ! k) \<noteq> FLAGGED" if "k < length (cells g')" for k
  proof -
    have k: "k < length (cells g)" using that unveils_fields(4) [OF assms(1)] by simp
    then have "state (cells g ! k) \<noteq> FLAGGED"
      using assms(2) by (simp add: no_flags_def list_all_length)
    then show ?thesis
      using unveils_nth [OF assms(1) k] by (auto simp: cell_unveils_def split: if_splits)
  qed
  then show ?thesis by (simp add: no_flags_def list_all_length)
qed

lemma no_flags_flags_remaining:
  assumes "no_flags g" and "allocated g"
  shows "flags_remaining g x y = neighbors (cell_at g x y)"
proof -
  have "state (cell_at g i j) \<noteq> FLAGGED" if "in_grid g i j" for i j
    using assms(1) cell_index_less [OF that assms(2)]
    by (simp add: no_flags_def list_all_length cell_at_def)
  then have "{(i, j). in_grid g i j \<and> neighbor_of x y i j \<and> state (cell_at g i j) = FLAGGED} = {}"
    by auto
  then have "flagged_neighbors g x y = 0" by (simp only: flagged_neighbors_def card.empty)
  then show ?thesis by (simp add: flags_remaining_eq)
qed

lemma zero_region_is_zero:
  "(i, j) \<in> zero_region g x y \<Longrightarrow> is_zero g x y \<Longrightarrow> is_zero g i j"
  by (induction rule: zero_region.induct) simp_all

lemma with_boundary_in_grid: "(i, j) \<in> with_boundary g R \<Longrightarrow> in_grid g i j"
  by (simp add: with_boundary_def)

lemma with_boundary_neighbor:
  "(i, j) \<in> R \<Longrightarrow> neighbor_of i j i' j' \<Longrightarrow> in_grid g i' j' \<Longrightarrow> (i', j') \<in> with_boundary g R"
  by (auto simp: with_boundary_def)

lemma with_boundary_self:
  "(i, j) \<in> R \<Longrightarrow> in_grid g i j \<Longrightarrow> (i, j) \<in> with_boundary g R"
  by (auto simp: with_boundary_def)

lemma zero_region_boundary_no_mine:
  assumes "neighbors_computed g" and "is_zero g x y"
    and "(i', j') \<in> with_boundary g (zero_region g x y)"
  shows "\<not> is_mine (cell_at g i' j')"
proof -
  from assms(3) obtain i j where ig: "in_grid g i' j'"
    and r: "(i, j) \<in> zero_region g x y"
    and n: "(i', j') = (i, j) \<or> neighbor_of i j i' j'"
    by (auto simp: with_boundary_def)
  have z: "is_zero g i j" using r assms(2) by (rule zero_region_is_zero)
  show ?thesis
  proof (cases "(i', j') = (i, j)")
    case True
    then show ?thesis using z by (simp add: is_zero_def)
  next
    case False
    then have "neighbor_of i j i' j'" using n by blast
    with assms(1) z ig show ?thesis by (rule zero_no_mine_neighbor)
  qed
qed

lemma zero_region_boundary_zero:
  assumes "(i', j') \<in> with_boundary g (zero_region g x y)" and "is_zero g i' j'"
  shows "(i', j') \<in> zero_region g x y"
proof -
  from assms(1) obtain i j where r: "(i, j) \<in> zero_region g x y"
    and n: "(i', j') = (i, j) \<or> neighbor_of i j i' j'"
    by (auto simp: with_boundary_def)
  show ?thesis
  proof (cases "(i', j') = (i, j)")
    case True
    then show ?thesis using r by simp
  next
    case False
    then have "neighbor_of i j i' j'" using n by blast
    with r show ?thesis using assms(2) by (rule zero_region.step)
  qed
qed

text \<open>The cells of the grid that differ between two boards lie in \<open>S\<close>.\<close>

lemma changes_within_trans:
  assumes "\<forall>i j. in_grid g i j \<and> cell_at b i j \<noteq> cell_at a i j \<longrightarrow> (i, j) \<in> S"
    and "\<forall>i j. in_grid g i j \<and> cell_at c i j \<noteq> cell_at b i j \<longrightarrow> (i, j) \<in> S"
  shows "\<forall>i j. in_grid g i j \<and> cell_at c i j \<noteq> cell_at a i j \<longrightarrow> (i, j) \<in> S"
  using assms by metis

lemma set_state_within:
  assumes "in_grid g x y" and "(x, y) \<in> S"
    and "width a = width g" and "height a = height g"
  shows "\<forall>i j. in_grid g i j \<and> cell_at (set_state a x y s) i j \<noteq> cell_at a i j \<longrightarrow> (i, j) \<in> S"
proof (intro allI impI)
  fix i j
  assume h: "in_grid g i j \<and> cell_at (set_state a x y s) i j \<noteq> cell_at a i j"
  have "in_grid a x y" "in_grid a i j" using assms(1,3,4) h by (simp_all add: in_grid_def)
  then have "(i, j) = (x, y)" using set_state_other [of a x y i j s] h by blast
  then show "(i, j) \<in> S" using assms(2) by simp
qed


lemma uncover_fuel_within:
  assumes al: "allocated g" and nc: "neighbors_computed g" and z: "is_zero g x y"
  shows "unveils g a \<Longrightarrow> no_flags a \<Longrightarrow> (i, j) \<in> with_boundary g (zero_region g x y) \<Longrightarrow>
         uncover_fuel n a i j = Some b \<Longrightarrow>
         (\<forall>i' j'. in_grid g i' j' \<and> cell_at b i' j' \<noteq> cell_at a i' j'
            \<longrightarrow> (i', j') \<in> with_boundary g (zero_region g x y))"
proof (induction n arbitrary: a i j b)
  case 0
  then show ?case by (simp add: uncover_fuel.simps)
next
  case (Suc n)
  let ?S = "with_boundary g (zero_region g x y)"
  note ga = Suc.prems(1) and nf = Suc.prems(2) and inS = Suc.prems(3)
  have ala: "allocated a" using ga al by (rule unveils_allocated)
  have ig: "in_grid g i j" using inS by (rule with_boundary_in_grid)
  have iga: "in_grid a i j" using ig by (simp add: unveils_in_grid [OF ga])
  have wh: "width a = width g" "height a = height g" using unveils_fields [OF ga] by simp_all
  have nm: "\<not> is_mine (cell_at a i j)"
    using zero_region_boundary_no_mine [OF nc z inS] unveils_fields_cell(1) [OF ga ig al] by simp
  have region: "(i, j) \<in> zero_region g x y" if "neighbors (cell_at a i j) = 0"
  proof -
    have "is_zero a i j" using that nm iga by (simp add: is_zero_def)
    then have "is_zero g i j" by (simp add: unveils_is_zero [OF ga al])
    with inS show ?thesis by (rule zero_region_boundary_zero)
  qed
  have loop: "\<forall>i' j'. in_grid g i' j' \<and> cell_at d i' j' \<noteq> cell_at c0 i' j' \<longrightarrow> (i', j') \<in> ?S"
    if c0: "unveils a c0" and run: "for_each f c0 (window i j) = Some d"
      and reg: "(i, j) \<in> zero_region g x y"
      and body: "\<And>c p e. f c p = Some e \<Longrightarrow>
            e = c \<or> (in_grid c (fst p) (snd p) \<and> \<not> (fst p = i \<and> snd p = j)
                      \<and> uncover_fuel n c (fst p) (snd p) = Some e)"
    for f c0 d
  proof -
    let ?Q = "\<lambda>c. unveils a c \<and>
        (\<forall>i' j'. in_grid g i' j' \<and> cell_at c i' j' \<noteq> cell_at c0 i' j' \<longrightarrow> (i', j') \<in> ?S)"
    have "?Q d"
      using run
    proof (rule for_each_preserves [where Q = ?Q])
      show "?Q c0" using c0 by simp
    next
      fix c p e
      assume q: "?Q c" and p: "p \<in> set (window i j)" and e: "f c p = Some e"
      show "?Q e"
      proof (cases "e = c")
        case True
        then show ?thesis using q by simp
      next
        case False
        then have igc: "in_grid c (fst p) (snd p)" and nself: "\<not> (fst p = i \<and> snd p = j)"
          and call: "uncover_fuel n c (fst p) (snd p) = Some e"
          using body [OF e] by simp_all
        have ac: "unveils a c" using q by simp
        have gc: "unveils g c" using ga ac by (rule unveils_trans)
        have alc: "allocated c" using ac ala by (rule unveils_allocated)
        have nfc: "no_flags c" using ac nf by (rule unveils_no_flags)
        have igp: "in_grid g (fst p) (snd p)" using igc by (simp add: unveils_in_grid [OF gc])
        obtain pa pb where pp: "p = (pa, pb)" by (cases p)
        have "neighbor_of i j (fst p) (snd p)"
          using p nself unfolding pp by (simp add: set_window neighbor_of_def)
        with reg have pS: "(fst p, snd p) \<in> ?S" using igp by (rule with_boundary_neighbor)
        have ce: "\<forall>i' j'. in_grid g i' j' \<and> cell_at e i' j' \<noteq> cell_at c i' j' \<longrightarrow> (i', j') \<in> ?S"
          using gc nfc pS call by (rule Suc.IH)
        have "unveils c e" using igc alc call by (rule uncover_fuel_unveils)
        with ac have "unveils a e" by (rule unveils_trans)
        moreover have "\<forall>i' j'. in_grid g i' j' \<and> cell_at e i' j' \<noteq> cell_at c0 i' j'
                          \<longrightarrow> (i', j') \<in> ?S"
          using q ce by (intro changes_within_trans [of g c c0 ?S e]) simp_all
        ultimately show ?thesis by simp
      qed
    qed
    then show ?thesis by simp
  qed
  have casc: "e = c \<or> (in_grid c (fst p) (snd p) \<and> \<not> (fst p = i \<and> snd p = j)
                      \<and> uncover_fuel n c (fst p) (snd p) = Some e)"
    if "cascade_body n i j c p = Some e" for c p e
    using that by (cases p) (auto split: if_splits)
  have chrd: "e = c \<or> (in_grid c (fst p) (snd p) \<and> \<not> (fst p = i \<and> snd p = j)
                      \<and> uncover_fuel n c (fst p) (snd p) = Some e)"
    if "chord_body n i j c p = Some e" for c p e
    using that by (cases p) (auto split: if_splits)
  from Suc.prems(4) show ?case
  proof (cases rule: uncover_fuel_cases)
    case (mine m)
    then show ?thesis using nm by simp
  next
    case (number m)
    show ?thesis unfolding number(5) using ig inS wh by (rule set_state_within)
  next
    case (zero m)
    have m: "m = n" using zero(1) by simp
    let ?c0 = "set_state a i j UNCOVERED"
    have "neighbors (cell_at a i j) = 0"
      using zero(4) cell_at_set_state_same [OF iga ala, of UNCOVERED] by simp
    then have reg: "(i, j) \<in> zero_region g x y" by (rule region)
    have c0: "unveils a ?c0" using iga ala zero(2,3) by (rule unveils_uncover)
    have run: "for_each (cascade_body n i j) ?c0 (window i j) = Some b"
      using zero(5) by (simp only: m)
    have 1: "\<forall>i' j'. in_grid g i' j' \<and> cell_at ?c0 i' j' \<noteq> cell_at a i' j' \<longrightarrow> (i', j') \<in> ?S"
      using ig inS wh by (rule set_state_within)
    have 2: "\<forall>i' j'. in_grid g i' j' \<and> cell_at b i' j' \<noteq> cell_at ?c0 i' j' \<longrightarrow> (i', j') \<in> ?S"
      using c0 run reg casc by (rule loop)
    from 1 2 show ?thesis by (rule changes_within_trans)
  next
    case (chord m)
    have m: "m = n" using chord(1) by simp
    have "neighbors (cell_at a i j) = 0"
      using chord(3) no_flags_flags_remaining [OF nf ala, of i j] by simp
    then have reg: "(i, j) \<in> zero_region g x y" by (rule region)
    have run: "for_each (chord_body n i j) a (window i j) = Some b"
      using chord(4) by (simp only: m)
    show ?thesis
      using unveils_refl run reg chrd by (rule loop)
  next
    case (other m)
    then show ?thesis by simp
  qed
qed


lemma uncover_Some_fuel:
  "uncover g x y = Some g' \<Longrightarrow> uncover_fuel (2 * length (cells g) + 2) g x y = Some g'"
  by (simp add: uncover_def)

text \<open>
  C2, as the code has it. Revealing a covered cell that is not a mine and has count 0,
  on a board with its counts: every cell of the covered zero region of the cell and
  every covered cell next to that region is \<open>UNCOVERED\<close> after; a cell that was not
  \<open>COVERED\<close> (a \<open>FLAGGED\<close> one, say) is left as it was. If no cell of the board is
  \<open>FLAGGED\<close>, every cell that changes lies in the zero region or next to it and
  becomes \<open>UNCOVERED\<close>: nothing explodes.
\<close>

theorem zero_reveal_cascade:
  assumes "allocated g" and "neighbors_computed g" and "in_grid g x y"
    and "state (cell_at g x y) = COVERED" and "\<not> is_mine (cell_at g x y)"
    and "neighbors (cell_at g x y) = 0"
  shows "\<exists>g'. uncover g x y = Some g' \<and> unveils g g'
       \<and> (\<forall>i j. (i, j) \<in> with_boundary g (covered_zero_region g x y)
                 \<and> state (cell_at g i j) = COVERED
             \<longrightarrow> cell_at g' i j = (cell_at g i j)\<lparr>state := UNCOVERED\<rparr>)
       \<and> (\<forall>i j. in_grid g i j \<and> state (cell_at g i j) \<noteq> COVERED
             \<longrightarrow> cell_at g' i j = cell_at g i j)
       \<and> (no_flags g \<longrightarrow>
            (\<forall>i j. in_grid g i j \<and> cell_at g' i j \<noteq> cell_at g i j
               \<longrightarrow> (i, j) \<in> with_boundary g (zero_region g x y)
                   \<and> cell_at g' i j = (cell_at g i j)\<lparr>state := UNCOVERED\<rparr>))"
proof -
  have z: "is_zero g x y" using assms(3,5,6) by (simp add: is_zero_def)
  obtain g' where g': "uncover g x y = Some g'"
    using uncover_returns [OF assms(3,1)] by blast
  note f = uncover_Some_fuel [OF g']
  have u: "unveils g g'" using assms(3,1) g' by (rule uncover_unveils)
  have 1: "cell_at g' i j = (cell_at g i j)\<lparr>state := UNCOVERED\<rparr>"
    if "(i, j) \<in> with_boundary g (covered_zero_region g x y) \<and> state (cell_at g i j) = COVERED"
    for i j
    using covered_zero_region_boundary_revealed [OF assms(1,2,3,4) z f, of i j] that by simp
  have 2: "cell_at g' i j = cell_at g i j"
    if "in_grid g i j \<and> state (cell_at g i j) \<noteq> COVERED" for i j
    using unveils_stays_uncovered [OF u _ assms(1), of i j] that by simp
  have 3: "(i, j) \<in> with_boundary g (zero_region g x y)
           \<and> cell_at g' i j = (cell_at g i j)\<lparr>state := UNCOVERED\<rparr>"
    if nf: "no_flags g" and h: "in_grid g i j \<and> cell_at g' i j \<noteq> cell_at g i j" for i j
  proof -
    have "(x, y) \<in> with_boundary g (zero_region g x y)"
      using zero_region.start assms(3) by (rule with_boundary_self)
    with unveils_refl nf
    have "\<forall>i' j'. in_grid g i' j' \<and> cell_at g' i' j' \<noteq> cell_at g i' j'
            \<longrightarrow> (i', j') \<in> with_boundary g (zero_region g x y)"
      using f by (rule uncover_fuel_within [OF assms(1,2) z])
    then have S: "(i, j) \<in> with_boundary g (zero_region g x y)" using h by blast
    have nm: "\<not> is_mine (cell_at g i j)"
      using assms(2) z S by (rule zero_region_boundary_no_mine)
    have "cell_unveils (cell_at g i j) (cell_at g' i j)"
      using u h assms(1) by (intro unveils_cell_at) simp_all
    then have "cell_at g' i j = (cell_at g i j)\<lparr>state := UNCOVERED\<rparr>"
      using h nm by (auto simp: cell_unveils_def)
    with S show ?thesis by simp
  qed
  from g' u 1 2 3 show ?thesis by blast
qed

theorem zero_reveal_cascade_witness:
  "no_flags cascade_example
   \<and> (\<exists>g'. uncover cascade_example 0 0 = Some g'
          \<and> map state (cells g') = [UNCOVERED, UNCOVERED, COVERED, UNCOVERED, UNCOVERED, COVERED]
          \<and> state (cell_at g' 1 1) = UNCOVERED)"
proof -
  have h1: "allocated cascade_example"
    by (simp add: allocated_def cascade_example_def board_def)
  have h2: "neighbors_computed cascade_example"
    by code_simp
  have h3: "in_grid cascade_example 0 0"
    by (simp add: in_grid_def cascade_example_def board_def)
  have c: "cell_at cascade_example 0 0 = mk_cell False COVERED 0"
    "cell_at cascade_example 1 1 = mk_cell False COVERED 1"
    by (simp_all add: cell_at_def cell_index_def cascade_example_def board_def)
  have h4: "state (cell_at cascade_example 0 0) = COVERED"
    and h5: "\<not> is_mine (cell_at cascade_example 0 0)"
    and h6: "neighbors (cell_at cascade_example 0 0) = 0"
    by (simp_all add: c mk_cell_def)
  have nf: "no_flags cascade_example"
    by (simp add: no_flags_def cascade_example_def board_def mk_cell_def)
  have "(0, 0) \<in> covered_zero_region cascade_example 0 0"
    by (rule covered_zero_region.start)
  moreover have "neighbor_of 0 0 1 1" by (simp add: neighbor_of_def)
  moreover have "in_grid cascade_example 1 1"
    by (simp add: in_grid_def cascade_example_def board_def)
  ultimately have b: "(1, 1) \<in> with_boundary cascade_example (covered_zero_region cascade_example 0 0)"
    by (rule with_boundary_neighbor)
  have e: "map_option (map state \<circ> cells) (uncover cascade_example 0 0)
           = Some [UNCOVERED, UNCOVERED, COVERED, UNCOVERED, UNCOVERED, COVERED]"
    by code_simp
  from zero_reveal_cascade [OF h1 h2 h3 h4 h5 h6] obtain g'
    where g': "uncover cascade_example 0 0 = Some g'"
      and r: "\<forall>i j. (i, j) \<in> with_boundary cascade_example (covered_zero_region cascade_example 0 0)
                 \<and> state (cell_at cascade_example i j) = COVERED
             \<longrightarrow> cell_at g' i j = (cell_at cascade_example i j)\<lparr>state := UNCOVERED\<rparr>"
    by blast
  have "state (cell_at g' 1 1) = UNCOVERED"
    using r b c(2) by (simp add: mk_cell_def)
  with g' e nf show ?thesis by simp
qed

text \<open>
  C2 as stated fails. In the row of three zero cells the flagged cell \<open>(1, 0)\<close> and the
  covered cell \<open>(2, 0)\<close> behind it belong to the zero region of \<open>(0, 0)\<close>, and revealing
  \<open>(0, 0)\<close> leaves both as they are. On the 3x2 board with the wrong flag, revealing
  the zero at \<open>(0, 0)\<close> comes back to the uncovered \<open>(1, 0)\<close>, finds one flag next to its
  count of 1 and reveals its covered neighbours: the mine at \<open>(2, 0)\<close> explodes.
\<close>

theorem zero_reveal_counterexample:
  "allocated flagged_zero_example \<and> neighbors_computed flagged_zero_example
   \<and> cell_at flagged_zero_example 0 0 = mk_cell False COVERED 0
   \<and> (2, 0) \<in> zero_region flagged_zero_example 0 0
   \<and> map_option (map state \<circ> cells) (uncover flagged_zero_example 0 0)
       = Some [UNCOVERED, FLAGGED, COVERED]
   \<and> allocated wrong_flag_example \<and> neighbors_computed wrong_flag_example
   \<and> cell_at wrong_flag_example 0 0 = mk_cell False COVERED 0
   \<and> map_option (map state \<circ> cells) (uncover wrong_flag_example 0 0)
       = Some [UNCOVERED, UNCOVERED, EXPLODED, UNCOVERED, UNCOVERED, FLAGGED]"
proof -
  have z: "is_zero flagged_zero_example 1 0" "is_zero flagged_zero_example 2 0"
    by (simp_all add: is_zero_def in_grid_def cell_at_def cell_index_def
        flagged_zero_example_def board_def mk_cell_def)
  have "(0, 0) \<in> zero_region flagged_zero_example 0 0" by (rule zero_region.start)
  then have "(1, 0) \<in> zero_region flagged_zero_example 0 0"
    by (rule zero_region.step) (simp_all add: neighbor_of_def z)
  then have r: "(2, 0) \<in> zero_region flagged_zero_example 0 0"
    by (rule zero_region.step) (simp_all add: neighbor_of_def z)
  have a: "allocated flagged_zero_example" "allocated wrong_flag_example"
    by (simp_all add: allocated_def flagged_zero_example_def wrong_flag_example_def board_def)
  have n: "neighbors_computed flagged_zero_example" "neighbors_computed wrong_flag_example"
    by code_simp+
  have c: "cell_at flagged_zero_example 0 0 = mk_cell False COVERED 0"
    "cell_at wrong_flag_example 0 0 = mk_cell False COVERED 0"
    by (simp_all add: cell_at_def cell_index_def flagged_zero_example_def
        wrong_flag_example_def board_def)
  have e1: "map_option (map state \<circ> cells) (uncover flagged_zero_example 0 0)
       = Some [UNCOVERED, FLAGGED, COVERED]"
    by code_simp
  have e2: "map_option (map state \<circ> cells) (uncover wrong_flag_example 0 0)
       = Some [UNCOVERED, UNCOVERED, EXPLODED, UNCOVERED, UNCOVERED, FLAGGED]"
    by code_simp
  from a n c r e1 e2 show ?thesis by simp
qed

section \<open>The game loop keeps the board well formed\<close>

lemma neighbors_computed_cong:
  assumes "width g' = width g" and "height g' = height g"
    and "\<And>i j. in_grid g i j \<Longrightarrow> is_mine (cell_at g' i j) = is_mine (cell_at g i j)"
    and "\<And>i j. in_grid g i j \<Longrightarrow> neighbors (cell_at g' i j) = neighbors (cell_at g i j)"
  shows "neighbors_computed g' = neighbors_computed g"
proof -
  have ig: "in_grid g' i j = in_grid g i j" for i j
    using assms(1,2) by (simp add: in_grid_def)
  have "{(i, j). in_grid g' i j \<and> neighbor_of x y i j \<and> is_mine (cell_at g' i j)}
        = {(i, j). in_grid g i j \<and> neighbor_of x y i j \<and> is_mine (cell_at g i j)}" for x y
    using ig assms(3) by auto
  then have "mines_around g' x y = mines_around g x y" for x y
    by (simp add: mines_around_def)
  then show ?thesis
    using ig assms(4) by (simp add: neighbors_computed_iff)
qed

lemma unveils_neighbors_computed:
  assumes "unveils g g'" and "allocated g"
  shows "neighbors_computed g' = neighbors_computed g"
  using unveils_fields(1,2) [OF assms(1)]
    unveils_fields_cell(1) [OF assms(1) _ assms(2)]
    unveils_fields_cell(2) [OF assms(1) _ assms(2)]
  by (rule neighbors_computed_cong)

lemma flag_cell_at:
  assumes "in_grid g i j" and "allocated g"
  shows "is_mine (cell_at (flag g x y) i j) = is_mine (cell_at g i j)"
    and "neighbors (cell_at (flag g x y) i j) = neighbors (cell_at g i j)"
proof -
  have e: "cell_index (flag g x y) i j = cell_index g i j"
    by (simp add: cell_index_def flag_fields)
  show "is_mine (cell_at (flag g x y) i j) = is_mine (cell_at g i j)"
    using flag_cells [of g x y "cell_index g i j"] by (auto simp: cell_at_def e)
  show "neighbors (cell_at (flag g x y) i j) = neighbors (cell_at g i j)"
    using flag_cells [of g x y "cell_index g i j"] by (auto simp: cell_at_def e)
qed

lemma flag_neighbors_computed:
  assumes "allocated g"
  shows "neighbors_computed (flag g x y) = neighbors_computed g"
  using flag_fields(2,3) flag_cell_at(1) [OF _ assms] flag_cell_at(2) [OF _ assms]
  by (rule neighbors_computed_cong)

lemma flag_cursor:
  "cursor_x (flag g x y) = cursor_x g" "cursor_y (flag g x y) = cursor_y g"
  by (simp_all add: flag_def set_state_def)

lemma unveils_cursor:
  assumes "unveils g g'"
  shows "cursor_x g' = cursor_x g" "cursor_y g' = cursor_y g"
proof -
  have e: "g'\<lparr>cells := []\<rparr> = g\<lparr>cells := []\<rparr>" using assms by (simp add: unveils_def)
  show "cursor_x g' = cursor_x g" using arg_cong [OF e, of cursor_x] by simp
  show "cursor_y g' = cursor_y g" using arg_cong [OF e, of cursor_y] by simp
qed

lemma places_cursor:
  assumes "places g g'"
  shows "cursor_x g' = cursor_x g" "cursor_y g' = cursor_y g"
proof -
  have e: "g'\<lparr>cells := []\<rparr> = g\<lparr>cells := []\<rparr>" using assms by (simp add: places_def)
  show "cursor_x g' = cursor_x g" using arg_cong [OF e, of cursor_x] by simp
  show "cursor_y g' = cursor_y g" using arg_cong [OF e, of cursor_y] by simp
qed

lemma recounts_cursor:
  assumes "recounts g g'"
  shows "cursor_x g' = cursor_x g" "cursor_y g' = cursor_y g"
proof -
  have e: "g'\<lparr>cells := []\<rparr> = g\<lparr>cells := []\<rparr>" using assms by (simp add: recounts_def)
  show "cursor_x g' = cursor_x g" using arg_cong [OF e, of cursor_x] by simp
  show "cursor_y g' = cursor_y g" using arg_cong [OF e, of cursor_y] by simp
qed

lemma generate_mines_loop_places:
  "generate_mines_loop rs g sx sy i = Some g' \<Longrightarrow> places g g'"
proof (induction "length rs" arbitrary: rs g i rule: less_induct)
  case less
  show ?case
  proof (cases "i < num_mines g")
    case False
    then have "g' = g" using less.prems by (simp add: generate_mines_loop_done)
    then show ?thesis by (simp add: places_refl)
  next
    case True
    note lt = True
    show ?thesis
    proof (cases rule: two_or_short [of rs])
      case 1
      then show ?thesis using less.prems by (simp add: generate_mines_loop_short [OF lt])
    next
      case (2 r1 r2 rs')
      have sh: "length rs' < length rs" using 2 by simp
      let ?x = "c_rem (int r1) (width g)" and ?y = "c_rem (int r2) (height g)"
      show ?thesis
      proof (cases "(?x = sx \<and> ?y = sy) \<or> is_mine (cell_at g ?x ?y)")
        case True
        have "generate_mines_loop rs' g sx sy i = Some g'"
          using less.prems unfolding 2 by (simp only: generate_mines_loop_skip [OF lt True])
        then show ?thesis by (rule less.hyps [OF sh])
      next
        case False
        then have a: "\<not> (?x = sx \<and> ?y = sy)" and b: "\<not> is_mine (cell_at g ?x ?y)" by simp_all
        have "generate_mines_loop rs' (set_mine g ?x ?y) sx sy (i + 1) = Some g'"
          using less.prems unfolding 2 by (simp only: generate_mines_loop_place [OF lt a b])
        then have "places (set_mine g ?x ?y) g'" by (rule less.hyps [OF sh])
        with set_mine_places show ?thesis by (rule places_trans)
      qed
    qed
  qed
qed

lemma clear_cells_ok:
  assumes "in_grid g (cursor_x g) (cursor_y g)"
  shows "session_ok \<lparr>game_of = (clear_cells g)\<lparr>new_game := False\<rparr>, generated = False,
                     screen_of = scr0\<rparr>"
  using assms
  by (simp add: session_ok_def clear_cells_def allocated_def in_grid_def zero_cell_def
      list_all_length)

lemma cursor_move_ok:
  assumes "session_ok \<lparr>game_of = g, generated = gen, screen_of = sc\<rparr>"
    and "in_grid g x y"
  shows "session_ok \<lparr>game_of = g\<lparr>cursor_x := x, cursor_y := y\<rparr>, generated = gen, screen_of = sc'\<rparr>"
proof -
  have "neighbors_computed (g\<lparr>cursor_x := x, cursor_y := y\<rparr>) = neighbors_computed g"
    by (rule neighbors_computed_cong) (simp_all add: cell_at_def cell_index_def)
  then show ?thesis
    using assms
    by (simp add: session_ok_def allocated_def in_grid_def no_mine_uncovered_def)
qed

lemma uncover_ok:
  assumes al: "allocated g" and cur: "in_grid g (cursor_x g) (cursor_y g)"
    and nc: "neighbors_computed g" and nm: "no_mine_uncovered g"
    and u: "uncover g (cursor_x g) (cursor_y g) = Some g'"
  shows "session_ok \<lparr>game_of = g', generated = True, screen_of = sc\<rparr>"
proof -
  have v: "unveils g g'" using cur al u by (rule uncover_unveils)
  have "allocated g'" using v al by (rule unveils_allocated)
  moreover have "in_grid g' (cursor_x g') (cursor_y g')"
    using cur by (simp add: unveils_cursor [OF v] unveils_in_grid [OF v])
  moreover have "neighbors_computed g'" using nc by (simp add: unveils_neighbors_computed [OF v al])
  moreover have "no_mine_uncovered g'" using v nm by (rule unveils_no_mine_uncovered)
  ultimately show ?thesis by (simp add: session_ok_def)
qed

lemma first_uncover_ok:
  assumes al: "allocated g" and cur: "in_grid g (cursor_x g) (cursor_y g)"
    and fresh: "list_all (\<lambda>c. \<not> is_mine c \<and> (state c = COVERED \<or> state c = FLAGGED)) (cells g)"
    and gm: "generate_mines rs g (cursor_x g) (cursor_y g) = Some g1"
    and u: "uncover (calculate_neighbors g1) (cursor_x (calculate_neighbors g1))
               (cursor_y (calculate_neighbors g1)) = Some g'"
  shows "session_ok \<lparr>game_of = g', generated = True, screen_of = sc\<rparr>"
proof -
  let ?g2 = "calculate_neighbors g1"
  have p: "places g g1" using gm unfolding generate_mines_def by (rule generate_mines_loop_places)
  have al1: "allocated g1" using p al by (rule places_allocated)
  have r: "recounts g1 ?g2" using al1 by (rule calculate_neighbors_counts(1))
  have al2: "allocated ?g2" using r al1 by (rule recounts_allocated)
  have cur2: "in_grid ?g2 (cursor_x ?g2) (cursor_y ?g2)"
    using cur
    by (simp add: recounts_cursor [OF r] recounts_in_grid [OF r] places_cursor [OF p]
        places_in_grid [OF p])
  have nc2: "neighbors_computed ?g2" using al1 by (rule calculate_neighbors_computed)
  have "state (cells ?g2 ! k) \<noteq> UNCOVERED" if "k < length (cells ?g2)" for k
  proof -
    have k1: "k < length (cells g1)" using that by (simp add: recounts_fields [OF r])
    then have k0: "k < length (cells g)" by (simp add: places_fields [OF p])
    have "state (cells ?g2 ! k) = state (cells g1 ! k)" using r k1 by (simp add: recounts_def)
    also have "\<dots> = state (cells g ! k)" using p k0 by (simp add: places_def)
    finally show ?thesis using fresh k0 by (auto simp: list_all_length)
  qed
  then have nm2: "no_mine_uncovered ?g2" by (simp add: no_mine_uncovered_def list_all_length)
  from al2 cur2 nc2 nm2 u show ?thesis by (rule uncover_ok)
qed

lemma flag_ok:
  assumes "session_ok \<lparr>game_of = g, generated = gen, screen_of = sc\<rparr>"
  shows "session_ok \<lparr>game_of = flag g x y, generated = gen, screen_of = sc'\<rparr>"
proof -
  have al: "allocated g" using assms by (simp add: session_ok_def)
  have "allocated (flag g x y)" using al by (rule flag_allocated)
  moreover have "in_grid (flag g x y) (cursor_x (flag g x y)) (cursor_y (flag g x y))"
    using assms by (simp add: session_ok_def flag_cursor in_grid_def flag_fields)
  moreover have "neighbors_computed (flag g x y) \<and> no_mine_uncovered (flag g x y)" if gen
    using assms that by (simp add: session_ok_def flag_neighbors_computed [OF al] flag_no_mine_uncovered)
  moreover have "list_all (\<lambda>c. \<not> is_mine c \<and> (state c = COVERED \<or> state c = FLAGGED))
             (cells (flag g x y))" if "\<not> gen"
  proof -
    have "\<not> is_mine (cells (flag g x y) ! k)
          \<and> (state (cells (flag g x y) ! k) = COVERED \<or> state (cells (flag g x y) ! k) = FLAGGED)"
      if k: "k < length (cells g)" for k
    proof -
      have "\<not> is_mine (cells g ! k) \<and> (state (cells g ! k) = COVERED \<or> state (cells g ! k) = FLAGGED)"
        using assms \<open>\<not> gen\<close> k by (simp add: session_ok_def list_all_length)
      then show ?thesis using flag_cells [of g x y k] by auto
    qed
    then show ?thesis by (simp add: list_all_length flag_fields)
  qed
  ultimately show ?thesis by (simp add: session_ok_def)
qed

lemma field_update_ok:
  assumes "session_ok \<lparr>game_of = g, generated = gen, screen_of = sc\<rparr>"
  shows "session_ok \<lparr>game_of = g\<lparr>new_game := b\<rparr>, generated = gen, screen_of = sc'\<rparr>"
    and "session_ok \<lparr>game_of = g\<lparr>game_active := b\<rparr>, generated = gen, screen_of = sc'\<rparr>"
    and "session_ok \<lparr>game_of = g, generated = gen, screen_of = sc'\<rparr>"
proof -
  have "neighbors_computed (g\<lparr>new_game := b\<rparr>) = neighbors_computed g"
    by (rule neighbors_computed_cong) (simp_all add: cell_at_def cell_index_def)
  then show "session_ok \<lparr>game_of = g\<lparr>new_game := b\<rparr>, generated = gen, screen_of = sc'\<rparr>"
    using assms by (simp add: session_ok_def allocated_def in_grid_def no_mine_uncovered_def)
  have "neighbors_computed (g\<lparr>game_active := b\<rparr>) = neighbors_computed g"
    by (rule neighbors_computed_cong) (simp_all add: cell_at_def cell_index_def)
  then show "session_ok \<lparr>game_of = g\<lparr>game_active := b\<rparr>, generated = gen, screen_of = sc'\<rparr>"
    using assms by (simp add: session_ok_def allocated_def in_grid_def no_mine_uncovered_def)
  show "session_ok \<lparr>game_of = g, generated = gen, screen_of = sc'\<rparr>"
    using assms by (simp add: session_ok_def)
qed


lemma handle_key_ok:
  assumes ok: "session_ok \<lparr>game_of = g, generated = gen, screen_of = sc\<rparr>"
    and h: "handle_key rs k g gen = Some (g1, gen1)"
  shows "session_ok \<lparr>game_of = g1, generated = gen1, screen_of = sc'\<rparr>"
proof -
  have al: "allocated g" and cur: "in_grid g (cursor_x g) (cursor_y g)"
    using ok by (simp_all add: session_ok_def)
  have move: "session_ok \<lparr>game_of = g\<lparr>cursor_x := x, cursor_y := y\<rparr>, generated = gen,
                           screen_of = sc'\<rparr>" if "in_grid g x y" for x y
    using ok that by (rule cursor_move_ok)
  note same = field_update_ok(3) [OF ok, of sc']
  consider
    (right) "k = KEY_RIGHT \<or> k = Ch CHR ''l''"
  | (left) "\<not> (k = KEY_RIGHT \<or> k = Ch CHR ''l'')" "k = KEY_LEFT \<or> k = Ch CHR ''h''"
  | (up) "\<not> (k = KEY_RIGHT \<or> k = Ch CHR ''l'')" "\<not> (k = KEY_LEFT \<or> k = Ch CHR ''h'')"
      "k = KEY_UP \<or> k = Ch CHR ''k''"
  | (down) "\<not> (k = KEY_RIGHT \<or> k = Ch CHR ''l'')" "\<not> (k = KEY_LEFT \<or> k = Ch CHR ''h'')"
      "\<not> (k = KEY_UP \<or> k = Ch CHR ''k'')" "k = KEY_DOWN \<or> k = Ch CHR ''j''"
  | (reveal) "k = Ch CHR '' '' \<or> k = Ch CHR ''z''"
  | (flag) "k = Ch CHR ''x'' \<or> k = Ch CHR ''f''"
  | (new) "k = Ch CHR ''n''"
  | (quit) "k = Ch CHR ''q''"
  | (other) "\<not> (k = KEY_RIGHT \<or> k = Ch CHR ''l'')" "\<not> (k = KEY_LEFT \<or> k = Ch CHR ''h'')"
      "\<not> (k = KEY_UP \<or> k = Ch CHR ''k'')" "\<not> (k = KEY_DOWN \<or> k = Ch CHR ''j'')"
      "\<not> (k = Ch CHR '' '' \<or> k = Ch CHR ''z'')" "\<not> (k = Ch CHR ''x'' \<or> k = Ch CHR ''f'')"
      "k \<noteq> Ch CHR ''n''" "k \<noteq> Ch CHR ''q''"
    by blast
  then show ?thesis
  proof cases
    case right
    show ?thesis
    proof (cases "cursor_x g < width g - 1")
      case True
      then have "in_grid g (cursor_x g + 1) (cursor_y g)" using cur by (simp add: in_grid_def)
      from move [OF this] show ?thesis using h right True by (simp add: handle_key_def)
    next
      case False
      then show ?thesis using h right same by (simp add: handle_key_def)
    qed
  next
    case left
    show ?thesis
    proof (cases "cursor_x g > 0")
      case True
      then have "in_grid g (cursor_x g - 1) (cursor_y g)" using cur by (simp add: in_grid_def)
      from move [OF this] show ?thesis using h left True by (simp add: handle_key_def)
    next
      case False
      then show ?thesis using h left same by (simp add: handle_key_def)
    qed
  next
    case up
    show ?thesis
    proof (cases "cursor_y g > 0")
      case True
      then have "in_grid g (cursor_x g) (cursor_y g - 1)" using cur by (simp add: in_grid_def)
      from move [OF this] show ?thesis using h up True by (simp add: handle_key_def)
    next
      case False
      then show ?thesis using h up same by (simp add: handle_key_def)
    qed
  next
    case down
    show ?thesis
    proof (cases "cursor_y g < height g - 1")
      case True
      then have "in_grid g (cursor_x g) (cursor_y g + 1)" using cur by (simp add: in_grid_def)
      from move [OF this] show ?thesis using h down True by (simp add: handle_key_def)
    next
      case False
      then show ?thesis using h down same by (simp add: handle_key_def)
    qed
  next
    case reveal
    then have k: "k \<noteq> KEY_RIGHT" "k \<noteq> Ch CHR ''l''" "k \<noteq> KEY_LEFT" "k \<noteq> Ch CHR ''h''"
      "k \<noteq> KEY_UP" "k \<noteq> Ch CHR ''k''" "k \<noteq> KEY_DOWN" "k \<noteq> Ch CHR ''j''"
      by auto
    show ?thesis
    proof (cases gen)
      case True
      then have "uncover g (cursor_x g) (cursor_y g) = Some g1" and g1: "gen1 = True"
        using h reveal k by (auto simp: handle_key_def split: option.splits)
      moreover have "neighbors_computed g" "no_mine_uncovered g"
        using ok True by (simp_all add: session_ok_def)
      ultimately show ?thesis unfolding g1 using al cur by (intro uncover_ok)
    next
      case False
      then obtain g0 where gm: "generate_mines rs g (cursor_x g) (cursor_y g) = Some g0"
        and u: "uncover (calculate_neighbors g0) (cursor_x (calculate_neighbors g0))
                  (cursor_y (calculate_neighbors g0)) = Some g1"
        and g1: "gen1 = True"
        using h reveal k by (auto simp: handle_key_def split: option.splits)
      have "list_all (\<lambda>c. \<not> is_mine c \<and> (state c = COVERED \<or> state c = FLAGGED)) (cells g)"
        using ok False by (simp add: session_ok_def)
      with al cur show ?thesis unfolding g1 using gm u by (rule first_uncover_ok)
    qed
  next
    case flag
    then have k: "k \<noteq> KEY_RIGHT" "k \<noteq> Ch CHR ''l''" "k \<noteq> KEY_LEFT" "k \<noteq> Ch CHR ''h''"
      "k \<noteq> KEY_UP" "k \<noteq> Ch CHR ''k''" "k \<noteq> KEY_DOWN" "k \<noteq> Ch CHR ''j''"
      "k \<noteq> Ch CHR '' ''" "k \<noteq> Ch CHR ''z''"
      by auto
    have "g1 = flag g (cursor_x g) (cursor_y g)" "gen1 = gen"
      using h flag k by (auto simp: handle_key_def)
    then show ?thesis using flag_ok [OF ok] by simp
  next
    case new
    then have "g1 = g\<lparr>new_game := True\<rparr>" "gen1 = gen" using h by (simp_all add: handle_key_def)
    then show ?thesis using field_update_ok(1) [OF ok] by simp
  next
    case quit
    then have "g1 = g\<lparr>game_active := False\<rparr>" "gen1 = gen" using h by (simp_all add: handle_key_def)
    then show ?thesis using field_update_ok(2) [OF ok] by simp
  next
    case other
    then have "g1 = g" "gen1 = gen" using h by (simp_all add: handle_key_def)
    then show ?thesis using same by simp
  qed
qed

lemma game_round_ok:
  assumes "session_ok s" and "game_round rs k s = Some s'"
  shows "session_ok s'"
proof -
  obtain g gen sc where s: "s = \<lparr>game_of = g, generated = gen, screen_of = sc\<rparr>"
    by (cases s) simp
  show ?thesis
  proof (cases "new_game g")
    case True
    have cur: "in_grid g (cursor_x g) (cursor_y g)" using assms(1) s by (simp add: session_ok_def)
    obtain g1 gen1 where h: "handle_key rs k ((clear_cells g)\<lparr>new_game := False\<rparr>) False = Some (g1, gen1)"
      and s': "s' = \<lparr>game_of = g1, generated = gen1, screen_of = draw g1 sc\<rparr>"
      using assms(2) s True by (auto simp: game_round_def split: option.splits)
    show ?thesis unfolding s' using clear_cells_ok [OF cur] h by (rule handle_key_ok)
  next
    case False
    obtain g1 gen1 where h: "handle_key rs k g gen = Some (g1, gen1)"
      and s': "s' = \<lparr>game_of = g1, generated = gen1, screen_of = draw g1 sc\<rparr>"
      using assms(2) s False by (auto simp: game_round_def split: option.splits)
    show ?thesis unfolding s' using assms(1) [unfolded s] h by (rule handle_key_ok)
  qed
qed

lemma game_loop_ok: "session_ok s \<Longrightarrow> game_loop evs s = Some s' \<Longrightarrow> session_ok s'"
proof (induction evs arbitrary: s)
  case Nil
  then show ?case by simp
next
  case (Cons ev evs)
  obtain k rs where ev: "ev = (k, rs)" by (cases ev)
  show ?case
  proof (cases "game_active (game_of s)")
    case True
    then obtain s1 where r: "game_round rs k s = Some s1" and l: "game_loop evs s1 = Some s'"
      using Cons.prems(2) ev by (auto split: option.splits)
    from Cons.prems(1) r have "session_ok s1" by (rule game_round_ok)
    then show ?thesis using l by (rule Cons.IH)
  next
    case False
    then show ?thesis using Cons.prems ev by simp
  qed
qed

lemma parse_opt_cursor:
  "cursor_x (snd (parse_opt key arg g)) = cursor_x g"
  "cursor_y (snd (parse_opt key arg g)) = cursor_y g"
  by (simp_all add: parse_opt_def split: option.splits)

lemma fold_parse_opt_cursor:
  "cursor_x (fold (\<lambda>(key, arg) g. snd (parse_opt key arg g)) opts g) = cursor_x g
   \<and> cursor_y (fold (\<lambda>(key, arg) g. snd (parse_opt key arg g)) opts g) = cursor_y g"
  by (induction opts arbitrary: g) (simp_all add: parse_opt_cursor split: prod.splits)

lemma start_session_ok:
  assumes "0 < width (main_setup opts)" and "0 < height (main_setup opts)"
  shows "session_ok (start_session opts)"
proof -
  let ?g1 = "fold (\<lambda>(key, arg) g. snd (parse_opt key arg g)) opts initial_game"
  have m: "main_setup opts =
      (clear_cells ?g1)\<lparr>num_mines := c_div (width ?g1 * height ?g1) MINE_GEN_RATIO\<rparr>"
    by (simp add: main_setup_def Let_def fold_parse_opt_custom initial_game_def clear_cells_def)
  have c: "cursor_x ?g1 = 0" "cursor_y ?g1 = 0"
    using fold_parse_opt_cursor [of opts initial_game] by (simp_all add: initial_game_def)
  have wh: "width (main_setup opts) = width ?g1" "height (main_setup opts) = height ?g1"
    unfolding m by (simp_all add: clear_cells_def)
  have "allocated (main_setup opts)"
    unfolding m by (simp add: allocated_def clear_cells_def)
  moreover have "in_grid (main_setup opts) (cursor_x (main_setup opts)) (cursor_y (main_setup opts))"
    using assms c unfolding in_grid_def wh unfolding m by (simp add: clear_cells_def)
  moreover have "list_all (\<lambda>c. \<not> is_mine c \<and> (state c = COVERED \<or> state c = FLAGGED))
          (cells (main_setup opts))"
    unfolding m by (simp add: clear_cells_def zero_cell_def list_all_length)
  ultimately show ?thesis
    by (simp add: start_session_def session_ok_def)
qed

text \<open>
  Whatever the keys and the numbers of \<open>rand()\<close>, on a board of positive width and
  height every call of \<open>uncover\<close> and \<open>flag\<close> in the game loop is at the cursor, which
  is a cell of the grid of an allocated board, and \<open>uncover\<close> is called only with the
  counts computed.
\<close>

lemma game_loop_well_formed:
  assumes "0 < width (main_setup opts)" and "0 < height (main_setup opts)"
    and "game_loop evs (start_session opts) = Some s"
  shows "session_ok s"
  using start_session_ok [OF assms(1,2)] assms(3) by (rule game_loop_ok)

end
